theory Spec2Isabelle
  imports Complex_Main "HOL-Library.Word" "HOL-Library.Sublist"
begin

section \<open>JavaScript strings\<close>

text \<open>
  A JavaScript string is a sequence of UTF-16 code units: \<open>length\<close>, \<open>slice\<close> and
  \<open>split\<close> count and cut code units, not code points. The string literals of the source
  are ASCII; \<open>lit\<close> turns such a literal into its code units.
\<close>

type_synonym jsstring = "16 word list"

definition lit :: "string \<Rightarrow> jsstring" where
  "lit s = map (\<lambda>c. of_nat (of_char c)) s"

text \<open>
  \<open>s.split(sep)\<close> for a separator of one code unit: the result always has at least one
  element, and \<open>"".split(sep)\<close> is \<open>[""]\<close>.
\<close>

fun split :: "'a \<Rightarrow> 'a list \<Rightarrow> 'a list list" where
  "split sep [] = [[]]"
| "split sep (c # cs) =
     (if c = sep then [] # split sep cs
      else (case split sep cs of [] \<Rightarrow> [[c]] | w # ws \<Rightarrow> (c # w) # ws))"

text \<open>\<open>xs.join(sep)\<close> on an array of strings.\<close>

fun join :: "'a list \<Rightarrow> 'a list list \<Rightarrow> 'a list" where
  "join sep [] = []"
| "join sep [x] = x"
| "join sep (x # y # ys) = x @ sep @ join sep (y # ys)"

section \<open>Errors\<close>

text \<open>
  Every exception the code can raise is a value: \<open>URIError\<close> from
  \<open>encodeURIComponent\<close>; \<open>TypeError\<close> from reading a property of \<open>null\<close>, from
  iterating a value that is not iterable, from converting an object that has no
  string form, and from \<open>res.text()\<close> when the body cannot be read; \<open>SyntaxError\<close> from
  \<open>res.json()\<close>; \<open>FetchFailed\<close> when \<open>fetch\<close> rejects; and \<open>HttpError msg\<close> for the
  \<open>Error\<close> that \<open>jenkins\<close> throws on a response that is not ok, with its message.
\<close>

datatype error = URIError | TypeError | SyntaxError | FetchFailed | HttpError jsstring

section \<open>encodeURIComponent\<close>

definition is_lead :: "16 word \<Rightarrow> bool" where
  "is_lead c = (0xD800 \<le> c \<and> c \<le> 0xDBFF)"

definition is_trail :: "16 word \<Rightarrow> bool" where
  "is_trail c = (0xDC00 \<le> c \<and> c \<le> 0xDFFF)"

text \<open>The code point of a surrogate pair.\<close>

definition pair_code_point :: "16 word \<Rightarrow> 16 word \<Rightarrow> nat" where
  "pair_code_point hi lo = 0x10000 + (unat hi - 0xD800) * 0x400 + (unat lo - 0xDC00)"

text \<open>The UTF-8 octets of a code point.\<close>

definition utf8 :: "nat \<Rightarrow> nat list" where
  "utf8 cp =
     (if cp < 0x80 then [cp]
      else if cp < 0x800 then [0xC0 + cp div 0x40, 0x80 + cp mod 0x40]
      else if cp < 0x10000 then
        [0xE0 + cp div 0x1000, 0x80 + (cp div 0x40) mod 0x40, 0x80 + cp mod 0x40]
      else
        [0xF0 + cp div 0x40000, 0x80 + (cp div 0x1000) mod 0x40,
         0x80 + (cp div 0x40) mod 0x40, 0x80 + cp mod 0x40])"

definition hex_upper :: "nat \<Rightarrow> 16 word" where
  "hex_upper d = (if d < 10 then of_nat (0x30 + d) else of_nat (0x41 + (d - 10)))"

text \<open>One octet as \<open>%XX\<close>, with upper-case hexadecimal digits.\<close>

definition pct :: "nat \<Rightarrow> jsstring" where
  "pct b = [0x25, hex_upper (b div 16), hex_upper (b mod 16)]"

text \<open>
  The code units \<open>encodeURIComponent\<close> leaves as they are: letters, digits and
  \<open>- _ . ! ~ * ' ( )\<close>.
\<close>

definition uri_unreserved :: "16 word \<Rightarrow> bool" where
  "uri_unreserved c =
     ((0x41 \<le> c \<and> c \<le> 0x5A) \<or> (0x61 \<le> c \<and> c \<le> 0x7A) \<or> (0x30 \<le> c \<and> c \<le> 0x39) \<or>
      c \<in> {0x2D, 0x5F, 0x2E, 0x21, 0x7E, 0x2A, 0x27, 0x28, 0x29})"

text \<open>
  \<open>encodeURIComponent(s)\<close>: every other code point is replaced by the \<open>%XX\<close> form of its
  UTF-8 octets; a surrogate that is not part of a pair raises \<open>URIError\<close>.
\<close>

fun encodeURIComponent :: "jsstring \<Rightarrow> error + jsstring" where
  "encodeURIComponent [] = Inr []"
| "encodeURIComponent (c # cs) =
     (if uri_unreserved c then
        (case encodeURIComponent cs of Inl e \<Rightarrow> Inl e | Inr r \<Rightarrow> Inr (c # r))
      else if is_lead c then
        (case cs of
           [] \<Rightarrow> Inl URIError
         | d # ds \<Rightarrow>
             if is_trail d then
               (case encodeURIComponent ds of
                  Inl e \<Rightarrow> Inl e
                | Inr r \<Rightarrow> Inr (concat (map pct (utf8 (pair_code_point c d))) @ r))
             else Inl URIError)
      else if is_trail c then Inl URIError
      else
        (case encodeURIComponent cs of
           Inl e \<Rightarrow> Inl e
         | Inr r \<Rightarrow> Inr (concat (map pct (utf8 (unat c))) @ r)))"

section \<open>The job path\<close>

text \<open>
  \<open>xs.map(f)\<close> for an \<open>f\<close> that can raise: the first exception, in the order of the
  elements, is the result.
\<close>

fun map_e :: "('a \<Rightarrow> error + 'b) \<Rightarrow> 'a list \<Rightarrow> error + 'b list" where
  "map_e f [] = Inr []"
| "map_e f (x # xs) =
     (case f x of
        Inl e \<Rightarrow> Inl e
      | Inr y \<Rightarrow> (case map_e f xs of Inl e \<Rightarrow> Inl e | Inr ys \<Rightarrow> Inr (y # ys)))"

definition slash :: "16 word" where
  "slash = 0x2F"

text \<open>The marker that precedes every segment of a job path.\<close>

definition job_marker :: jsstring where
  "job_marker = lit ''job/''"

text \<open>\<open>(s) => `job/${encodeURIComponent(s)}`\<close>\<close>

definition job_segment :: "jsstring \<Rightarrow> error + jsstring" where
  "job_segment s =
     (case encodeURIComponent s of Inl e \<Rightarrow> Inl e | Inr r \<Rightarrow> Inr (job_marker @ r))"

text \<open>\<open>jobName.split("/").map(...).join("/")\<close>\<close>

definition jobPath :: "jsstring \<Rightarrow> error + jsstring" where
  "jobPath jobName =
     (case map_e job_segment (split slash jobName) of
        Inl e \<Rightarrow> Inl e
      | Inr segs \<Rightarrow> Inr (join [slash] segs))"


text \<open>
  A string is well formed when every surrogate in it is part of a pair; these are the
  strings \<open>encodeURIComponent\<close> accepts.
\<close>

fun well_formed :: "jsstring \<Rightarrow> bool" where
  "well_formed [] = True"
| "well_formed (c # cs) =
     (if is_lead c then (case cs of [] \<Rightarrow> False | d # ds \<Rightarrow> is_trail d \<and> well_formed ds)
      else \<not> is_trail c \<and> well_formed cs)"

text \<open>
  The number of positions of a string at which a pattern occurs (overlapping occurrences
  are counted one by one).
\<close>

fun occurrences :: "'a list \<Rightarrow> 'a list \<Rightarrow> nat" where
  "occurrences pat [] = (if pat = [] then 1 else 0)"
| "occurrences pat (x # xs) = (if prefix pat (x # xs) then 1 else 0) + occurrences pat xs"

section \<open>Numbers given as tool input\<close>

text \<open>
  The \<open>tail\<close> argument is a JavaScript number. The code tests it for truth, compares it
  with zero, negates it and passes it to \<open>slice\<close>, which truncates it to an integer: all
  of these are exact on doubles, so a finite number is modelled by its rational value.
\<close>

datatype jsnumber = Finite rat | PosInfinity | NegInfinity | NaN

fun num_truthy :: "jsnumber \<Rightarrow> bool" where
  "num_truthy (Finite r) = (r \<noteq> 0)"
| "num_truthy PosInfinity = True"
| "num_truthy NegInfinity = True"
| "num_truthy NaN = False"

text \<open>\<open>x > 0\<close>\<close>

fun num_positive :: "jsnumber \<Rightarrow> bool" where
  "num_positive (Finite r) = (0 < r)"
| "num_positive PosInfinity = True"
| "num_positive NegInfinity = False"
| "num_positive NaN = False"

text \<open>\<open>-x\<close>\<close>

fun num_neg :: "jsnumber \<Rightarrow> jsnumber" where
  "num_neg (Finite r) = Finite (- r)"
| "num_neg PosInfinity = NegInfinity"
| "num_neg NegInfinity = PosInfinity"
| "num_neg NaN = NaN"

datatype integer_or_infinity = MinusInf | Integral int | PlusInf

text \<open>\<open>ToIntegerOrInfinity\<close>: truncation towards zero; \<open>NaN\<close> becomes 0.\<close>

fun ToIntegerOrInfinity :: "jsnumber \<Rightarrow> integer_or_infinity" where
  "ToIntegerOrInfinity (Finite r) = Integral (if 0 \<le> r then \<lfloor>r\<rfloor> else \<lceil>r\<rceil>)"
| "ToIntegerOrInfinity PosInfinity = PlusInf"
| "ToIntegerOrInfinity NegInfinity = MinusInf"
| "ToIntegerOrInfinity NaN = Integral 0"

text \<open>
  \<open>xs.slice(start)\<close>, of an array and of a string alike: a negative start counts from
  the end, and the start is clamped to the range of the indices.
\<close>

definition slice_from :: "jsnumber \<Rightarrow> 'a list \<Rightarrow> 'a list" where
  "slice_from start xs =
     (case ToIntegerOrInfinity start of
        MinusInf \<Rightarrow> xs
      | Integral i \<Rightarrow>
          if i < 0 then drop (nat (max (int (length xs) + i) 0)) xs
          else drop (nat (min i (int (length xs)))) xs
      | PlusInf \<Rightarrow> [])"

section \<open>JSON values\<close>

text \<open>
  The value \<open>res.json()\<close> returns. An object is the list of its own properties in the
  order in which JavaScript enumerates them. A number is represented by the string
  \<open>Number.prototype.toString\<close> gives for it, which determines the number (up to the sign
  of zero): the code only converts such numbers to strings and tests them for truth.
  \<open>undefined\<close> is no JSON value; a property read that yields it returns \<open>None\<close>.
\<close>

datatype json =
    JNull
  | JBool bool
  | JNum jsstring
  | JStr jsstring
  | JArr "json list"
  | JObj "(jsstring \<times> json) list"

fun truthy :: "json \<Rightarrow> bool" where
  "truthy JNull = False"
| "truthy (JBool b) = b"
| "truthy (JNum n) = (n \<noteq> lit ''0'' \<and> n \<noteq> lit ''NaN'')"
| "truthy (JStr s) = (s \<noteq> [])"
| "truthy (JArr xs) = True"
| "truthy (JObj kvs) = True"

text \<open>
  \<open>v.key\<close> for the property names the code reads (\<open>property\<close>,
  \<open>parameterDefinitions\<close>, \<open>actions\<close>, \<open>parameters\<close>, \<open>name\<close>, \<open>value\<close>): on \<open>null\<close> it
  raises \<open>TypeError\<close>; an object has the property or not; strings, numbers, booleans and
  arrays have no property of these names.
\<close>

fun get_prop :: "jsstring \<Rightarrow> json \<Rightarrow> error + json option" where
  "get_prop key JNull = Inl TypeError"
| "get_prop key (JObj kvs) = Inr (map_of kvs key)"
| "get_prop key v = Inr None"

text \<open>\<open>x || []\<close>\<close>

fun or_empty :: "json option \<Rightarrow> json" where
  "or_empty None = JArr []"
| "or_empty (Some v) = (if truthy v then v else JArr [])"

text \<open>The elements the iterator of a string yields: its code points, each as a string.\<close>

fun code_points :: "jsstring \<Rightarrow> jsstring list" where
  "code_points [] = []"
| "code_points [c] = [[c]]"
| "code_points (c # d # ds) =
     (if is_lead c \<and> is_trail d then [c, d] # code_points ds
      else [c] # code_points (d # ds))"

text \<open>
  \<open>for (const x of v)\<close> and the spread \<open>...v\<close>: arrays and strings are iterable, every
  other JSON value raises \<open>TypeError\<close>.
\<close>

fun iterate :: "json \<Rightarrow> error + json list" where
  "iterate (JArr xs) = Inr xs"
| "iterate (JStr s) = Inr (map JStr (code_points s))"
| "iterate v = Inl TypeError"

text \<open>
  \<open>String(v)\<close>. An array is the join of its elements with a comma, \<open>null\<close> elements as
  the empty string. An object is \<open>[object Object]\<close>; an object with an own property
  \<open>toString\<close> (which, from JSON, is no function) cannot be converted:
  \<open>Object.prototype.valueOf\<close> returns the object itself, and \<open>TypeError\<close> is raised.
\<close>

fun ToString :: "json \<Rightarrow> error + jsstring"
  and ToString_elements :: "json list \<Rightarrow> error + jsstring list" where
  "ToString JNull = Inr (lit ''null'')"
| "ToString (JBool b) = Inr (if b then lit ''true'' else lit ''false'')"
| "ToString (JNum n) = Inr n"
| "ToString (JStr s) = Inr s"
| "ToString (JArr xs) =
     (case ToString_elements xs of Inl e \<Rightarrow> Inl e | Inr ss \<Rightarrow> Inr (join (lit '','') ss))"
| "ToString (JObj kvs) =
     (if lit ''toString'' \<in> fst ` set kvs then Inl TypeError
      else Inr (lit ''[object Object]''))"
| "ToString_elements [] = Inr []"
| "ToString_elements (x # xs) =
     (case (if x = JNull then Inr [] else ToString x) of
        Inl e \<Rightarrow> Inl e
      | Inr s \<Rightarrow> (case ToString_elements xs of Inl e \<Rightarrow> Inl e | Inr ss \<Rightarrow> Inr (s # ss)))"

section \<open>Objects built by the code\<close>

text \<open>
  An array index is a canonical numeric string below \<open>2^32 - 1\<close>. JavaScript enumerates
  the own properties of an object with the array indices first, in ascending order,
  and the other names after them in the order of their creation.
\<close>

definition is_digit :: "16 word \<Rightarrow> bool" where
  "is_digit c = (0x30 \<le> c \<and> c \<le> 0x39)"

definition digits_value :: "jsstring \<Rightarrow> int" where
  "digits_value s = foldl (\<lambda>n c. 10 * n + (uint c - 0x30)) 0 s"

definition array_index :: "jsstring \<Rightarrow> int option" where
  "array_index s =
     (case s of
        [] \<Rightarrow> None
      | c # cs \<Rightarrow>
          if list_all is_digit s \<and> (c \<noteq> 0x30 \<or> cs = []) \<and> digits_value s < 2 ^ 32 - 1
          then Some (digits_value s) else None)"

fun insert_index :: "int \<Rightarrow> jsstring \<Rightarrow> 'v \<Rightarrow> (jsstring \<times> 'v) list \<Rightarrow> (jsstring \<times> 'v) list" where
  "insert_index i k v [] = [(k, v)]"
| "insert_index i k v ((k', v') # kvs) =
     (case array_index k' of
        None \<Rightarrow> (k, v) # (k', v') # kvs
      | Some j \<Rightarrow> if j < i then (k', v') # insert_index i k v kvs else (k, v) # (k', v') # kvs)"

text \<open>
  Defining an own property, as an object literal and the spread \<open>{...a, ...b}\<close> do: an
  existing property keeps its place and takes the new value; a new one is placed as
  the enumeration order says.
\<close>

definition define_prop :: "(jsstring \<times> 'v) list \<Rightarrow> jsstring \<Rightarrow> 'v \<Rightarrow> (jsstring \<times> 'v) list" where
  "define_prop kvs k v =
     (if k \<in> fst ` set kvs then map (\<lambda>kv. if fst kv = k then (k, v) else kv) kvs
      else (case array_index k of None \<Rightarrow> kvs @ [(k, v)] | Some i \<Rightarrow> insert_index i k v kvs))"

text \<open>
  \<open>obj[k] = v\<close> on an object created by \<open>{}\<close>, for a string \<open>v\<close>. Assigning a string to
  \<open>__proto__\<close> calls the setter of \<open>Object.prototype\<close>, which ignores a value that is
  neither an object nor \<open>null\<close>: no property is created. Every other name is defined
  as an own property.
\<close>

definition obj_set :: "(jsstring \<times> 'v) list \<Rightarrow> jsstring \<Rightarrow> 'v \<Rightarrow> (jsstring \<times> 'v) list" where
  "obj_set kvs k v = (if k = lit ''__proto__'' then kvs else define_prop kvs k v)"

section \<open>JSON.stringify\<close>

definition newline :: "16 word" where
  "newline = 0x0A"

definition hex_lower :: "nat \<Rightarrow> 16 word" where
  "hex_lower d = (if d < 10 then of_nat (0x30 + d) else of_nat (0x61 + (d - 10)))"

text \<open>\<open>\uXXXX\<close> with lower-case hexadecimal digits.\<close>

definition unicode_escape :: "16 word \<Rightarrow> jsstring" where
  "unicode_escape c =
     [0x5C, 0x75] @
     [hex_lower (unat c div 4096), hex_lower (unat c div 256 mod 16),
      hex_lower (unat c div 16 mod 16), hex_lower (unat c mod 16)]"

definition quote_unit :: "16 word \<Rightarrow> jsstring" where
  "quote_unit c =
     (if c = 0x08 then [0x5C, 0x62] else if c = 0x09 then [0x5C, 0x74]
      else if c = 0x0A then [0x5C, 0x6E] else if c = 0x0C then [0x5C, 0x66]
      else if c = 0x0D then [0x5C, 0x72] else if c = 0x22 then [0x5C, 0x22]
      else if c = 0x5C then [0x5C, 0x5C]
      else if c < 0x20 then unicode_escape c
      else [c])"

text \<open>
  The characters of a quoted string: the escapes of JSON, and a surrogate that is not
  part of a pair as its \<open>\uXXXX\<close> escape.
\<close>

fun quote_units :: "jsstring \<Rightarrow> jsstring" where
  "quote_units [] = []"
| "quote_units [c] = (if is_lead c \<or> is_trail c then unicode_escape c else quote_unit c)"
| "quote_units (c # d # ds) =
     (if is_lead c \<and> is_trail d then c # d # quote_units ds
      else if is_lead c \<or> is_trail c then unicode_escape c @ quote_units (d # ds)
      else quote_unit c @ quote_units (d # ds))"

definition quote_json :: "jsstring \<Rightarrow> jsstring" where
  "quote_json s = [0x22] @ quote_units s @ [0x22]"

text \<open>
  \<open>JSON.stringify(v, null, gap)\<close> at the indentation \<open>ind\<close>; \<open>gap\<close> is empty for
  \<open>JSON.stringify(v)\<close> and two spaces for \<open>JSON.stringify(v, null, 2)\<close>. A number that is
  not finite is written \<open>null\<close>.
\<close>

fun stringify :: "jsstring \<Rightarrow> jsstring \<Rightarrow> json \<Rightarrow> jsstring" where
  "stringify gap ind JNull = lit ''null''"
| "stringify gap ind (JBool b) = (if b then lit ''true'' else lit ''false'')"
| "stringify gap ind (JNum n) =
     (if n = lit ''NaN'' \<or> n = lit ''Infinity'' \<or> n = lit ''-Infinity'' then lit ''null'' else n)"
| "stringify gap ind (JStr s) = quote_json s"
| "stringify gap ind (JArr xs) =
     (if xs = [] then lit ''[]''
      else if gap = [] then
        lit ''['' @ join (lit '','') (map (stringify gap ind) xs) @ lit '']''
      else
        lit ''['' @ [newline] @ ind @ gap @
        join (lit '','' @ [newline] @ ind @ gap) (map (stringify gap (ind @ gap)) xs) @
        [newline] @ ind @ lit '']'')"
| "stringify gap ind (JObj kvs) =
     (if kvs = [] then lit ''{}''
      else if gap = [] then
        lit ''{'' @
        join (lit '','')
          (map (\<lambda>kv. quote_json (fst kv) @ lit '':'' @ stringify gap ind (snd kv)) kvs) @
        lit ''}''
      else
        lit ''{'' @ [newline] @ ind @ gap @
        join (lit '','' @ [newline] @ ind @ gap)
          (map (\<lambda>kv. quote_json (fst kv) @ lit '': '' @ stringify gap (ind @ gap) (snd kv)) kvs) @
        [newline] @ ind @ lit ''}'')"

text \<open>\<open>JSON.stringify(v)\<close> and \<open>JSON.stringify(v, null, 2)\<close>\<close>

definition JSON_stringify :: "json \<Rightarrow> jsstring" where
  "JSON_stringify v = stringify [] [] v"

definition JSON_stringify_2 :: "json \<Rightarrow> jsstring" where
  "JSON_stringify_2 v = stringify (lit ''  '') [] v"

text \<open>An object whose property values are strings, as a JSON value.\<close>

definition string_record :: "(jsstring \<times> jsstring) list \<Rightarrow> json" where
  "string_record ps = JObj (map (\<lambda>kv. (fst kv, JStr (snd kv))) ps)"

section \<open>URLSearchParams and Buffer\<close>

text \<open>
  The code points of a string, with \<open>U+FFFD\<close> for a surrogate that is not part of a pair:
  the conversion to a \<open>USVString\<close>, and what \<open>Buffer.from\<close> encodes.
\<close>

fun scalar_values :: "jsstring \<Rightarrow> nat list" where
  "scalar_values [] = []"
| "scalar_values [c] = [if is_lead c \<or> is_trail c then 0xFFFD else unat c]"
| "scalar_values (c # d # ds) =
     (if is_lead c \<and> is_trail d then pair_code_point c d # scalar_values ds
      else (if is_lead c \<or> is_trail c then 0xFFFD else unat c) # scalar_values (d # ds))"

definition utf8_bytes :: "jsstring \<Rightarrow> nat list" where
  "utf8_bytes s = concat (map utf8 (scalar_values s))"

text \<open>
  The bytes the \<open>application/x-www-form-urlencoded\<close> serializer leaves as they are:
  letters, digits and \<open>* - . _\<close>. A space becomes \<open>+\<close>, every other byte \<open>%XX\<close>.
\<close>

definition form_safe :: "nat \<Rightarrow> bool" where
  "form_safe b =
     ((0x41 \<le> b \<and> b \<le> 0x5A) \<or> (0x61 \<le> b \<and> b \<le> 0x7A) \<or> (0x30 \<le> b \<and> b \<le> 0x39) \<or>
      b \<in> {0x2A, 0x2D, 0x2E, 0x5F})"

definition form_byte :: "nat \<Rightarrow> jsstring" where
  "form_byte b = (if b = 0x20 then [0x2B] else if form_safe b then [of_nat b] else pct b)"

definition form_encode :: "jsstring \<Rightarrow> jsstring" where
  "form_encode s = concat (map form_byte (utf8_bytes s))"

text \<open>
  \<open>new URLSearchParams(params)\<close> for an object: its properties in their order. Two names
  that differ only in unpaired surrogates become one entry, which keeps the place of
  the first and the value of the last; \<open>usv_key\<close> is the name as it is compared.
\<close>

definition usv_key :: "jsstring \<Rightarrow> nat list" where
  "usv_key k = scalar_values k"

fun record_set :: "(jsstring \<times> jsstring) list \<Rightarrow> jsstring \<Rightarrow> jsstring \<Rightarrow> (jsstring \<times> jsstring) list" where
  "record_set [] k v = [(k, v)]"
| "record_set ((k', v') # r) k v =
     (if usv_key k' = usv_key k then (k', v) # r else (k', v') # record_set r k v)"

definition URLSearchParams :: "(jsstring \<times> jsstring) list \<Rightarrow> (jsstring \<times> jsstring) list" where
  "URLSearchParams params = foldl (\<lambda>r kv. record_set r (fst kv) (snd kv)) [] params"

text \<open>\<open>new URLSearchParams(params).toString()\<close>\<close>

definition form_body :: "(jsstring \<times> jsstring) list \<Rightarrow> jsstring" where
  "form_body params =
     join (lit ''&'')
       (map (\<lambda>kv. form_encode (fst kv) @ lit ''='' @ form_encode (snd kv)) (URLSearchParams params))"

definition base64_digit :: "nat \<Rightarrow> 16 word" where
  "base64_digit n =
     (if n < 26 then of_nat (0x41 + n) else if n < 52 then of_nat (0x61 + (n - 26))
      else if n < 62 then of_nat (0x30 + (n - 52)) else if n = 62 then 0x2B else 0x2F)"

fun base64 :: "nat list \<Rightarrow> jsstring" where
  "base64 [] = []"
| "base64 [a] = [base64_digit (a div 4), base64_digit (a mod 4 * 16), 0x3D, 0x3D]"
| "base64 [a, b] =
     [base64_digit (a div 4), base64_digit (a mod 4 * 16 + b div 16),
      base64_digit (b mod 16 * 4), 0x3D]"
| "base64 (a # b # c # bs) =
     [base64_digit (a div 4), base64_digit (a mod 4 * 16 + b div 16),
      base64_digit (b mod 16 * 4 + c div 64), base64_digit (c mod 64)] @ base64 bs"

section \<open>Configuration\<close>

text \<open>The environment variables, read once when the process starts.\<close>

record environment =
  env_JENKINS_URL :: "jsstring option"
  env_JENKINS_USER :: "jsstring option"
  env_JENKINS_TOKEN :: "jsstring option"

text \<open>\<open>x || ""\<close>\<close>

fun or_empty_string :: "jsstring option \<Rightarrow> jsstring" where
  "or_empty_string None = []"
| "or_empty_string (Some s) = s"

text \<open>\<open>s.replace(/\/+$/, "")\<close>\<close>

definition strip_trailing_slashes :: "jsstring \<Rightarrow> jsstring" where
  "strip_trailing_slashes s = rev (dropWhile (\<lambda>c. c = slash) (rev s))"

definition JENKINS_URL :: "environment \<Rightarrow> jsstring" where
  "JENKINS_URL env = strip_trailing_slashes (or_empty_string (env_JENKINS_URL env))"

definition JENKINS_USER :: "environment \<Rightarrow> jsstring" where
  "JENKINS_USER env = or_empty_string (env_JENKINS_USER env)"

definition JENKINS_TOKEN :: "environment \<Rightarrow> jsstring" where
  "JENKINS_TOKEN env = or_empty_string (env_JENKINS_TOKEN env)"

definition authHeaders :: "environment \<Rightarrow> (jsstring \<times> jsstring) list" where
  "authHeaders env =
     [(lit ''Authorization'',
       lit ''Basic '' @ base64 (utf8_bytes (JENKINS_USER env @ lit '':'' @ JENKINS_TOKEN env)))]"

section \<open>Requests and responses\<close>

datatype http_method = GET | POST

record request =
  req_url :: jsstring
  req_method :: http_method
  req_headers :: "(jsstring \<times> jsstring) list"
  req_body :: "jsstring option"

text \<open>
  What the code reads of a response: the status and its text, the body as \<open>res.text()\<close>
  and as \<open>res.json()\<close> give it (\<open>None\<close> when the promise rejects), and
  \<open>res.headers.get("location")\<close> (\<open>None\<close> for \<open>null\<close>).
\<close>

record response =
  res_status :: nat
  res_statusText :: jsstring
  res_text :: "jsstring option"
  res_json :: "json option"
  res_location :: "jsstring option"

text \<open>\<open>res.ok\<close>: the status is in the range 200 to 299.\<close>

definition res_ok :: "response \<Rightarrow> bool" where
  "res_ok res = (200 \<le> res_status res \<and> res_status res \<le> 299)"

text \<open>
  \<open>fetch\<close> either rejects or resolves to a response. The remote server is a function of
  the exchanges so far and of the request; the list of exchanges is the state every
  operation passes on, so that the requests an operation has issued can be read off.
\<close>

datatype outcome = Rejected | Responded response

type_synonym exchange = "request \<times> outcome"

type_synonym server = "exchange list \<Rightarrow> request \<Rightarrow> outcome"

record options =
  opt_method :: "http_method option"
  opt_headers :: "(jsstring \<times> jsstring) list option"
  opt_body :: "jsstring option"

text \<open>\<open>{}\<close> and \<open>{ method: "POST" }\<close>\<close>

definition no_options :: options where
  "no_options = \<lparr>opt_method = None, opt_headers = None, opt_body = None\<rparr>"

definition post_options :: options where
  "post_options = \<lparr>opt_method = Some POST, opt_headers = None, opt_body = None\<rparr>"

text \<open>
  \<open>{ method: "POST", headers: { "Content-Type": "application/x-www-form-urlencoded" },
  body }\<close>
\<close>

definition form_options :: "jsstring \<Rightarrow> options" where
  "form_options body =
     \<lparr>opt_method = Some POST,
      opt_headers = Some [(lit ''Content-Type'', lit ''application/x-www-form-urlencoded'')],
      opt_body = Some body\<rparr>"

text \<open>The decimal digits of a number, as a template literal writes it.\<close>

fun decimal :: "nat \<Rightarrow> jsstring" where
  "decimal n =
     (if n < 10 then [of_nat (0x30 + n)]
      else decimal (n div 10) @ [of_nat (0x30 + n mod 10)])"

text \<open>\<open>s.slice(a, b)\<close> for integers \<open>0 \<le> a\<close> and \<open>0 \<le> b\<close>.\<close>

definition slice_range :: "nat \<Rightarrow> nat \<Rightarrow> 'a list \<Rightarrow> 'a list" where
  "slice_range a b xs =
     (let lo = min a (length xs); hi = min b (length xs) in take (hi - lo) (drop lo xs))"

text \<open>The message of the error for a response that is not ok.\<close>

definition error_message :: "response \<Rightarrow> jsstring" where
  "error_message res =
     lit ''Jenkins '' @ decimal (res_status res) @ lit '' '' @ res_statusText res @ lit '': '' @
     slice_range 0 500 (or_empty_string (res_text res))"

text \<open>
  The request \<open>jenkins(path, options)\<close> passes to \<open>fetch\<close>: the URL
  \<open>`${JENKINS_URL}/${path}`\<close>, the options, and the headers
  \<open>{ ...authHeaders(), ...(options.headers || {}) }\<close>. \<open>fetch\<close> takes \<open>GET\<close> when no
  method is given.
\<close>

definition make_request :: "environment \<Rightarrow> jsstring \<Rightarrow> options \<Rightarrow> request" where
  "make_request env path opts =
     \<lparr>req_url = JENKINS_URL env @ lit ''/'' @ path,
      req_method = (case opt_method opts of None \<Rightarrow> GET | Some m \<Rightarrow> m),
      req_headers =
        foldl (\<lambda>h kv. define_prop h (fst kv) (snd kv)) (authHeaders env)
          (case opt_headers opts of None \<Rightarrow> [] | Some h \<Rightarrow> h),
      req_body = opt_body opts\<rparr>"

text \<open>
  \<open>jenkins(path, options)\<close>: one request. The exchange is recorded whatever its
  outcome; a response that is not ok is an error.
\<close>

definition jenkins ::
  "environment \<Rightarrow> server \<Rightarrow> exchange list \<Rightarrow> jsstring \<Rightarrow> options \<Rightarrow>
   (error + response) \<times> exchange list" where
  "jenkins env srv hist path opts =
     (let req = make_request env path opts;
          out = srv hist req;
          hist' = hist @ [(req, out)]
      in case out of
           Rejected \<Rightarrow> (Inl FetchFailed, hist')
         | Responded res \<Rightarrow>
             if res_ok res then (Inr res, hist')
             else (Inl (HttpError (error_message res)), hist'))"

section \<open>The tools\<close>

text \<open>
  Every tool takes the exchanges so far and returns its result, the text of its one
  content block or the error it raises, with the exchanges after it.
\<close>

type_synonym tool_result = "(error + jsstring) \<times> exchange list"

text \<open>\<open>await res.json()\<close>, which rejects when the body is not JSON.\<close>

definition json_of :: "response \<Rightarrow> error + json" where
  "json_of res = (case res_json res of None \<Rightarrow> Inl SyntaxError | Some j \<Rightarrow> Inr j)"

text \<open>\<open>await res.text()\<close>, which rejects with a \<open>TypeError\<close> when the body cannot be read.\<close>

definition text_of :: "response \<Rightarrow> error + jsstring" where
  "text_of res = (case res_text res of None \<Rightarrow> Inl TypeError | Some t \<Rightarrow> Inr t)"

text \<open>\<open>res.headers.get("location") || ""\<close>\<close>

definition location_of :: "response \<Rightarrow> jsstring" where
  "location_of res = or_empty_string (res_location res)"

text \<open>\<open>tree ? `?tree=${encodeURIComponent(tree)}` : ""\<close>\<close>

definition tree_query :: "jsstring option \<Rightarrow> error + jsstring" where
  "tree_query tree =
     (case tree of
        None \<Rightarrow> Inr []
      | Some t \<Rightarrow>
          if t = [] then Inr []
          else (case encodeURIComponent t of Inl e \<Rightarrow> Inl e | Inr r \<Rightarrow> Inr (lit ''?tree='' @ r)))"

text \<open>
  \<open>const res = await jenkins(...)\<close> followed by code that issues no further request: an
  error of the request is the result; otherwise the rest of the handler computes the
  result from the response.
\<close>

definition request_then ::
  "(error + response) \<times> exchange list \<Rightarrow> (response \<Rightarrow> error + jsstring) \<Rightarrow> tool_result" where
  "request_then r rest =
     (case r of (Inl e, hist') \<Rightarrow> (Inl e, hist') | (Inr res, hist') \<Rightarrow> (rest res, hist'))"

text \<open>
  A request for JSON whose result is printed as it is: the body of \<open>get_job_info\<close>,
  \<open>get_build_info\<close> and \<open>get_queue_item\<close> once the path is built.
\<close>

definition get_json_text :: "environment \<Rightarrow> server \<Rightarrow> exchange list \<Rightarrow> jsstring \<Rightarrow> tool_result" where
  "get_json_text env srv hist path =
     request_then (jenkins env srv hist path no_options)
       (\<lambda>res. case json_of res of Inl e \<Rightarrow> Inl e | Inr data \<Rightarrow> Inr (JSON_stringify_2 data))"

subsection \<open>get_job_info and get_build_info\<close>

definition jenkins_get_job_info ::
  "environment \<Rightarrow> server \<Rightarrow> exchange list \<Rightarrow> jsstring \<Rightarrow> jsstring option \<Rightarrow> tool_result" where
  "jenkins_get_job_info env srv hist job tree =
     (case tree_query tree of
        Inl e \<Rightarrow> (Inl e, hist)
      | Inr qs \<Rightarrow>
          (case jobPath job of
             Inl e \<Rightarrow> (Inl e, hist)
           | Inr jp \<Rightarrow> get_json_text env srv hist (jp @ lit ''/api/json'' @ qs)))"

definition jenkins_get_build_info ::
  "environment \<Rightarrow> server \<Rightarrow> exchange list \<Rightarrow> jsstring \<Rightarrow> jsstring \<Rightarrow> jsstring option \<Rightarrow>
   tool_result" where
  "jenkins_get_build_info env srv hist job build tree =
     (case tree_query tree of
        Inl e \<Rightarrow> (Inl e, hist)
      | Inr qs \<Rightarrow>
          (case jobPath job of
             Inl e \<Rightarrow> (Inl e, hist)
           | Inr jp \<Rightarrow>
               get_json_text env srv hist (jp @ lit ''/'' @ build @ lit ''/api/json'' @ qs)))"

subsection \<open>get_params\<close>

text \<open>A loop whose body can raise: the first exception ends it.\<close>

fun fold_e :: "('a \<Rightarrow> 's \<Rightarrow> error + 's) \<Rightarrow> 'a list \<Rightarrow> 's \<Rightarrow> error + 's" where
  "fold_e f [] s = Inr s"
| "fold_e f (x # xs) s = (case f x s of Inl e \<Rightarrow> Inl e | Inr s' \<Rightarrow> fold_e f xs s')"

text \<open>
  The body of the loop over the properties:
  \<open>if (prop.parameterDefinitions) params.push(...prop.parameterDefinitions)\<close>
\<close>

definition push_definitions :: "json \<Rightarrow> json list \<Rightarrow> error + json list" where
  "push_definitions prop params =
     (case get_prop (lit ''parameterDefinitions'') prop of
        Inl e \<Rightarrow> Inl e
      | Inr None \<Rightarrow> Inr params
      | Inr (Some d) \<Rightarrow>
          if truthy d then (case iterate d of Inl e \<Rightarrow> Inl e | Inr ds \<Rightarrow> Inr (params @ ds))
          else Inr params)"

text \<open>\<open>for (const prop of data.property || []) ...\<close>, from the empty array.\<close>

definition parameter_definitions :: "json \<Rightarrow> error + json list" where
  "parameter_definitions data =
     (case get_prop (lit ''property'') data of
        Inl e \<Rightarrow> Inl e
      | Inr p \<Rightarrow>
          (case iterate (or_empty p) of
             Inl e \<Rightarrow> Inl e
           | Inr props \<Rightarrow> fold_e push_definitions props []))"

definition params_tree :: jsstring where
  "params_tree =
     lit ''property[parameterDefinitions[name,type,defaultParameterValue[value],description,choices]]''"

definition no_parameters_message :: jsstring where
  "no_parameters_message = lit ''This job has no parameters defined.''"

text \<open>The text of the result, from the parameter definitions found.\<close>

definition params_text :: "json list \<Rightarrow> jsstring" where
  "params_text params =
     (if length params = 0 then no_parameters_message else JSON_stringify_2 (JArr params))"

definition jenkins_get_params ::
  "environment \<Rightarrow> server \<Rightarrow> exchange list \<Rightarrow> jsstring \<Rightarrow> tool_result" where
  "jenkins_get_params env srv hist job =
     (case jobPath job of
        Inl e \<Rightarrow> (Inl e, hist)
      | Inr jp \<Rightarrow>
          (case encodeURIComponent params_tree of
             Inl e \<Rightarrow> (Inl e, hist)
           | Inr tree \<Rightarrow>
               request_then (jenkins env srv hist (jp @ lit ''/api/json?tree='' @ tree) no_options)
                 (\<lambda>res. case json_of res of
                    Inl e \<Rightarrow> Inl e
                  | Inr data \<Rightarrow>
                      (case parameter_definitions data of
                         Inl e \<Rightarrow> Inl e
                       | Inr params \<Rightarrow> Inr (params_text params)))))"

subsection \<open>get_console_output\<close>

text \<open>
  \<open>if (tail && tail > 0) { const lines = text.split("\n");
  text = lines.slice(-tail).join("\n"); }\<close>
\<close>

definition tail_step :: "jsnumber option \<Rightarrow> jsstring \<Rightarrow> jsstring" where
  "tail_step tail txt =
     (case tail of
        None \<Rightarrow> txt
      | Some t \<Rightarrow>
          if num_truthy t \<and> num_positive t
          then join [newline] (slice_from (num_neg t) (split newline txt))
          else txt)"

definition truncation_marker :: jsstring where
  "truncation_marker = lit ''[... truncated ...]\<newline>''"

text \<open>
  \<open>if (text.length > 100_000) { text = text.slice(-100_000);
  text = "[... truncated ...]\n" + text; }\<close>
\<close>

definition truncate_step :: "jsstring \<Rightarrow> jsstring" where
  "truncate_step txt =
     (if length txt > 100000 then truncation_marker @ slice_from (Finite (- 100000)) txt
      else txt)"

definition jenkins_get_console_output ::
  "environment \<Rightarrow> server \<Rightarrow> exchange list \<Rightarrow> jsstring \<Rightarrow> jsstring \<Rightarrow> jsnumber option \<Rightarrow>
   tool_result" where
  "jenkins_get_console_output env srv hist job build tail =
     (case jobPath job of
        Inl e \<Rightarrow> (Inl e, hist)
      | Inr jp \<Rightarrow>
          request_then (jenkins env srv hist (jp @ lit ''/'' @ build @ lit ''/consoleText'') no_options)
            (\<lambda>res. case text_of res of
               Inl e \<Rightarrow> Inl e
             | Inr txt \<Rightarrow> Inr (truncate_step (tail_step tail txt))))"

subsection \<open>build and build_with_params\<close>

definition build_text :: "jsstring \<Rightarrow> jsstring" where
  "build_text location =
     lit ''Build triggered successfully.\<newline>Queue URL: '' @ location @
     lit ''\<newline>Poll '' @ location @
     lit ''api/json to get the build number once scheduled.''"

definition jenkins_build :: "environment \<Rightarrow> server \<Rightarrow> exchange list \<Rightarrow> jsstring \<Rightarrow> tool_result" where
  "jenkins_build env srv hist job =
     (case jobPath job of
        Inl e \<Rightarrow> (Inl e, hist)
      | Inr jp \<Rightarrow>
          request_then (jenkins env srv hist (jp @ lit ''/build'') post_options)
            (\<lambda>res. Inr (build_text (location_of res))))"

definition build_with_params_text :: "(jsstring \<times> jsstring) list \<Rightarrow> jsstring \<Rightarrow> jsstring" where
  "build_with_params_text params location =
     lit ''Build triggered with parameters: '' @ JSON_stringify (string_record params) @
     lit ''\<newline>Queue URL: '' @ location"

definition jenkins_build_with_params ::
  "environment \<Rightarrow> server \<Rightarrow> exchange list \<Rightarrow> jsstring \<Rightarrow> (jsstring \<times> jsstring) list \<Rightarrow>
   tool_result" where
  "jenkins_build_with_params env srv hist job params =
     (let body = form_body params in
      case jobPath job of
        Inl e \<Rightarrow> (Inl e, hist)
      | Inr jp \<Rightarrow>
          request_then
            (jenkins env srv hist (jp @ lit ''/buildWithParameters'') (form_options body))
            (\<lambda>res. Inr (build_with_params_text params (location_of res))))"

subsection \<open>rebuild\<close>

text \<open>
  The body of the inner loop:
  \<open>if (p.name && p.value !== undefined) { params[p.name] = String(p.value); }\<close>
\<close>

definition add_parameter ::
  "json \<Rightarrow> (jsstring \<times> jsstring) list \<Rightarrow> error + (jsstring \<times> jsstring) list" where
  "add_parameter p params =
     (case get_prop (lit ''name'') p of
        Inl e \<Rightarrow> Inl e
      | Inr None \<Rightarrow> Inr params
      | Inr (Some n) \<Rightarrow>
          if \<not> truthy n then Inr params
          else
            (case get_prop (lit ''value'') p of
               Inl e \<Rightarrow> Inl e
             | Inr None \<Rightarrow> Inr params
             | Inr (Some v) \<Rightarrow>
                 (case ToString v of
                    Inl e \<Rightarrow> Inl e
                  | Inr sv \<Rightarrow>
                      (case ToString n of
                         Inl e \<Rightarrow> Inl e
                       | Inr k \<Rightarrow> Inr (obj_set params k sv)))))"

text \<open>\<open>for (const p of action.parameters || []) ...\<close>\<close>

definition add_action ::
  "json \<Rightarrow> (jsstring \<times> jsstring) list \<Rightarrow> error + (jsstring \<times> jsstring) list" where
  "add_action action params =
     (case get_prop (lit ''parameters'') action of
        Inl e \<Rightarrow> Inl e
      | Inr ps \<Rightarrow>
          (case iterate (or_empty ps) of
             Inl e \<Rightarrow> Inl e
           | Inr plist \<Rightarrow> fold_e add_parameter plist params))"

text \<open>\<open>for (const action of info.actions || []) ...\<close>, from the empty object.\<close>

definition extract_parameters :: "json \<Rightarrow> error + (jsstring \<times> jsstring) list" where
  "extract_parameters info =
     (case get_prop (lit ''actions'') info of
        Inl e \<Rightarrow> Inl e
      | Inr a \<Rightarrow>
          (case iterate (or_empty a) of
             Inl e \<Rightarrow> Inl e
           | Inr actions \<Rightarrow> fold_e add_action actions []))"

definition rebuild_tree :: jsstring where
  "rebuild_tree = lit ''actions[parameters[name,value]]''"

definition rebuild_text :: "jsstring \<Rightarrow> (jsstring \<times> jsstring) list \<Rightarrow> jsstring \<Rightarrow> jsstring" where
  "rebuild_text build params location =
     lit ''Rebuild of #'' @ build @ lit '' triggered.\<newline>Extracted parameters: '' @
     JSON_stringify (string_record params) @ lit ''\<newline>Queue URL: '' @ location"

text \<open>
  Step 2: \<open>Object.keys(params).length > 0\<close> chooses between
  \<open>buildWithParameters\<close>, with the parameters as the form body, and \<open>build\<close>.
\<close>

definition trigger ::
  "environment \<Rightarrow> server \<Rightarrow> exchange list \<Rightarrow> jsstring \<Rightarrow> (jsstring \<times> jsstring) list \<Rightarrow>
   (error + response) \<times> exchange list" where
  "trigger env srv hist job params =
     (if length (map fst params) > 0 then
        (let body = form_body params in
         case jobPath job of
           Inl e \<Rightarrow> (Inl e, hist)
         | Inr jp \<Rightarrow> jenkins env srv hist (jp @ lit ''/buildWithParameters'') (form_options body))
      else
        (case jobPath job of
           Inl e \<Rightarrow> (Inl e, hist)
         | Inr jp \<Rightarrow> jenkins env srv hist (jp @ lit ''/build'') post_options))"

text \<open>
  Step 1 reads the parameters of the build; a failure of the request, of
  \<open>infoRes.json()\<close> or of the extraction ends the handler there. Step 2 triggers the
  new build.
\<close>

definition jenkins_rebuild ::
  "environment \<Rightarrow> server \<Rightarrow> exchange list \<Rightarrow> jsstring \<Rightarrow> jsstring \<Rightarrow> tool_result" where
  "jenkins_rebuild env srv hist job build =
     (case jobPath job of
        Inl e \<Rightarrow> (Inl e, hist)
      | Inr jp \<Rightarrow>
          (case encodeURIComponent rebuild_tree of
             Inl e \<Rightarrow> (Inl e, hist)
           | Inr tree \<Rightarrow>
               (case jenkins env srv hist (jp @ lit ''/'' @ build @ lit ''/api/json?tree='' @ tree)
                       no_options of
                  (Inl e, hist1) \<Rightarrow> (Inl e, hist1)
                | (Inr infoRes, hist1) \<Rightarrow>
                    (case json_of infoRes of
                       Inl e \<Rightarrow> (Inl e, hist1)
                     | Inr info \<Rightarrow>
                         (case extract_parameters info of
                            Inl e \<Rightarrow> (Inl e, hist1)
                          | Inr params \<Rightarrow>
                              request_then (trigger env srv hist1 job params)
                                (\<lambda>res. Inr (rebuild_text build params (location_of res))))))))"

subsection \<open>get_queue_item\<close>

definition jenkins_get_queue_item ::
  "environment \<Rightarrow> server \<Rightarrow> exchange list \<Rightarrow> jsstring \<Rightarrow> tool_result" where
  "jenkins_get_queue_item env srv hist queue_id =
     get_json_text env srv hist (lit ''queue/item/'' @ queue_id @ lit ''/api/json'')"

subsection \<open>The eight operations\<close>

text \<open>
  A call of a tool, with its arguments as the input schema leaves them: \<open>build\<close> is
  optional for \<open>get_build_info\<close> and \<open>get_console_output\<close> and defaults to \<open>lastBuild\<close>;
  \<open>tree\<close> and \<open>tail\<close> are optional.
\<close>

datatype tool_call =
    Get_job_info jsstring "jsstring option"
  | Get_build_info jsstring "jsstring option" "jsstring option"
  | Get_params jsstring
  | Get_console_output jsstring "jsstring option" "jsnumber option"
  | Build jsstring
  | Build_with_params jsstring "(jsstring \<times> jsstring) list"
  | Rebuild jsstring jsstring
  | Get_queue_item jsstring

fun build_default :: "jsstring option \<Rightarrow> jsstring" where
  "build_default None = lit ''lastBuild''"
| "build_default (Some b) = b"

fun call_tool :: "environment \<Rightarrow> server \<Rightarrow> exchange list \<Rightarrow> tool_call \<Rightarrow> tool_result" where
  "call_tool env srv hist (Get_job_info job tree) = jenkins_get_job_info env srv hist job tree"
| "call_tool env srv hist (Get_build_info job build tree) =
     jenkins_get_build_info env srv hist job (build_default build) tree"
| "call_tool env srv hist (Get_params job) = jenkins_get_params env srv hist job"
| "call_tool env srv hist (Get_console_output job build tail) =
     jenkins_get_console_output env srv hist job (build_default build) tail"
| "call_tool env srv hist (Build job) = jenkins_build env srv hist job"
| "call_tool env srv hist (Build_with_params job params) =
     jenkins_build_with_params env srv hist job params"
| "call_tool env srv hist (Rebuild job build) = jenkins_rebuild env srv hist job build"
| "call_tool env srv hist (Get_queue_item queue_id) = jenkins_get_queue_item env srv hist queue_id"

section \<open>Example servers\<close>

definition example_env :: environment where
  "example_env =
     \<lparr>env_JENKINS_URL = Some (lit ''http://ci/''), env_JENKINS_USER = Some (lit ''u''),
      env_JENKINS_TOKEN = Some (lit ''t'')\<rparr>"

text \<open>A response with status 500 and the body \<open>internal error\<close>.\<close>

definition error_500 :: response where
  "error_500 =
     \<lparr>res_status = 500, res_statusText = lit ''Internal Server Error'',
      res_text = Some (lit ''internal error''), res_json = None, res_location = None\<rparr>"

text \<open>The response to a trigger: 201 with the queue item in the \<open>Location\<close> header.\<close>

definition created_201 :: response where
  "created_201 =
     \<lparr>res_status = 201, res_statusText = lit ''Created'', res_text = Some [],
      res_json = None, res_location = Some (lit ''http://ci/queue/item/7/'')\<rparr>"

definition json_200 :: "json \<Rightarrow> response" where
  "json_200 j =
     \<lparr>res_status = 200, res_statusText = lit ''OK'', res_text = None, res_json = Some j,
      res_location = None\<rparr>"

text \<open>A server that answers every request with the same response.\<close>

definition constant_server :: "response \<Rightarrow> server" where
  "constant_server res hist req = Responded res"

text \<open>A server that answers a \<open>GET\<close> with a JSON document and a \<open>POST\<close> with a response.\<close>

definition get_post_server :: "json \<Rightarrow> response \<Rightarrow> server" where
  "get_post_server j res hist req =
     (if req_method req = GET then Responded (json_200 j) else Responded res)"

text \<open>The recorded actions of a build with the parameters \<open>A = "1"\<close> and \<open>B = "2"\<close>.\<close>

definition info_A_B :: json where
  "info_A_B =
     JObj [(lit ''actions'',
       JArr [JObj [],
         JObj [(lit ''parameters'',
           JArr [JObj [(lit ''name'', JStr (lit ''A'')), (lit ''value'', JStr (lit ''1''))],
                 JObj [(lit ''name'', JStr (lit ''B'')), (lit ''value'', JStr (lit ''2''))]])]])]"

text \<open>The recorded actions of a build without parameters.\<close>

definition info_none :: json where
  "info_none = JObj [(lit ''actions'', JArr [JObj []])]"

section \<open>Notions used in the statements\<close>

text \<open>
  A result surfaces the HTTP errors of a call when the exchanges after the call are
  those before it followed by new ones, and every new response that is not ok is the
  error the call fails with.
\<close>

definition surfaces :: "exchange list \<Rightarrow> tool_result \<Rightarrow> bool" where
  "surfaces hist r =
     (\<exists>new. snd r = hist @ new \<and>
        (\<forall>req res. (req, Responded res) \<in> set new \<longrightarrow> \<not> res_ok res \<longrightarrow>
           fst r = Inl (HttpError (error_message res))))"

text \<open>
  The request of step 1 of rebuild for a job path: the tree filter
  \<open>actions[parameters[name,value]]\<close> is percent-encoded in the query.
\<close>

definition rebuild_info_request :: "environment \<Rightarrow> jsstring \<Rightarrow> jsstring \<Rightarrow> request" where
  "rebuild_info_request env jp build =
     make_request env
       (jp @ lit ''/'' @ build @ lit ''/api/json?tree='' @
        lit ''actions%5Bparameters%5Bname%2Cvalue%5D%5D'')
       no_options"

text \<open>The request of get_console_output for a job path and a build.\<close>

definition console_request :: "environment \<Rightarrow> jsstring \<Rightarrow> jsstring \<Rightarrow> request" where
  "console_request env jp build =
     make_request env (jp @ lit ''/'' @ build @ lit ''/consoleText'') no_options"

text \<open>An ok response with a text body.\<close>

definition text_200 :: "jsstring \<Rightarrow> response" where
  "text_200 t =
     \<lparr>res_status = 200, res_statusText = lit ''OK'', res_text = Some t, res_json = None,
      res_location = None\<rparr>"







text \<open>
  The entries the extraction of rebuild visits: the parameters of each recorded
  action, in order.
\<close>

definition actions_of :: "json \<Rightarrow> json list" where
  "actions_of info =
     (case get_prop (lit ''actions'') info of
        Inl e \<Rightarrow> []
      | Inr a \<Rightarrow> (case iterate (or_empty a) of Inl e \<Rightarrow> [] | Inr actions \<Rightarrow> actions))"

definition parameters_of :: "json \<Rightarrow> json list" where
  "parameters_of action =
     (case get_prop (lit ''parameters'') action of
        Inl e \<Rightarrow> []
      | Inr ps \<Rightarrow> (case iterate (or_empty ps) of Inl e \<Rightarrow> [] | Inr plist \<Rightarrow> plist))"

definition entries_of :: "json \<Rightarrow> json list" where
  "entries_of info = concat (map parameters_of (actions_of info))"

text \<open>
  An entry has a name when its \<open>name\<close> is truthy (it is there, and is not the empty
  string, zero, \<open>false\<close> or \<open>null\<close>), and a defined value when its \<open>value\<close> is there.
\<close>

definition has_name_and_value :: "json \<Rightarrow> bool" where
  "has_name_and_value p =
     (case get_prop (lit ''name'') p of
        Inr (Some n) \<Rightarrow>
          truthy n \<and> (case get_prop (lit ''value'') p of Inr (Some v) \<Rightarrow> True | _ \<Rightarrow> False)
      | _ \<Rightarrow> False)"

text \<open>
  What an entry with a name and a defined value stands for: its name as a property
  key, with the string form of its value.
\<close>

definition assignment_of :: "json \<Rightarrow> (jsstring \<times> jsstring) option" where
  "assignment_of p =
     (case get_prop (lit ''name'') p of
        Inr (Some n) \<Rightarrow>
          if truthy n then
            (case get_prop (lit ''value'') p of
               Inr (Some v) \<Rightarrow>
                 (case ToString v of
                    Inl e \<Rightarrow> None
                  | Inr sv \<Rightarrow> (case ToString n of Inl e \<Rightarrow> None | Inr k \<Rightarrow> Some (k, sv)))
             | _ \<Rightarrow> None)
          else None
      | _ \<Rightarrow> None)"

definition assignments :: "json \<Rightarrow> (jsstring \<times> jsstring) list" where
  "assignments info = List.map_filter assignment_of (entries_of info)"

text \<open>The object after a sequence of assignments \<open>obj[k] = v\<close>.\<close>

definition assign_all ::
  "(jsstring \<times> jsstring) list \<Rightarrow> (jsstring \<times> jsstring) list \<Rightarrow> (jsstring \<times> jsstring) list" where
  "assign_all obj kvs = foldl (\<lambda>acc kv. obj_set acc (fst kv) (snd kv)) obj kvs"

text \<open>An entry is included in a parameter set when the set holds what it stands for.\<close>

definition included :: "json \<Rightarrow> (jsstring \<times> jsstring) list \<Rightarrow> bool" where
  "included p params = (case assignment_of p of None \<Rightarrow> False | Some kv \<Rightarrow> kv \<in> set params)"

text \<open>Two entries of the name \<open>A\<close>, with the values \<open>1\<close> and \<open>2\<close>.\<close>

definition entry_A_1 :: json where
  "entry_A_1 = JObj [(lit ''name'', JStr (lit ''A'')), (lit ''value'', JStr (lit ''1''))]"

definition entry_A_2 :: json where
  "entry_A_2 = JObj [(lit ''name'', JStr (lit ''A'')), (lit ''value'', JStr (lit ''2''))]"

definition info_A_twice :: json where
  "info_A_twice =
     JObj [(lit ''actions'', JArr [JObj [(lit ''parameters'', JArr [entry_A_1, entry_A_2])]])]"

text \<open>
  Entries of several kinds: a boolean value, a \<open>null\<close> value, an entry without a
  value, and an entry with an empty name.
\<close>

definition entry_boolean :: json where
  "entry_boolean = JObj [(lit ''name'', JStr (lit ''A'')), (lit ''value'', JBool True)]"

definition entry_null :: json where
  "entry_null = JObj [(lit ''name'', JStr (lit ''B'')), (lit ''value'', JNull)]"

definition entry_without_value :: json where
  "entry_without_value = JObj [(lit ''name'', JStr (lit ''C''))]"

definition entry_empty_name :: json where
  "entry_empty_name = JObj [(lit ''name'', JStr []), (lit ''value'', JStr (lit ''x''))]"

definition info_mixed :: json where
  "info_mixed =
     JObj [(lit ''actions'',
       JArr [JObj [(lit ''parameters'', JArr [entry_boolean, entry_null])],
             JObj [],
             JObj [(lit ''parameters'', JArr [entry_without_value, entry_empty_name])]])]"

section \<open>Properties of strings\<close>

lemma unreserved_not_surrogate: "uri_unreserved c \<Longrightarrow> \<not> is_lead c \<and> \<not> is_trail c"
  unfolding uri_unreserved_def is_lead_def is_trail_def
  by (auto simp: word_le_nat_alt)

lemma slash_not_surrogate: "\<not> is_lead slash \<and> \<not> is_trail slash"
  by (simp add: is_lead_def is_trail_def slash_def)

lemma split_not_Nil [simp]: "split sep s \<noteq> []"
  by (cases s) (simp_all split: list.split)

lemma split_Cons_sep: "split sep (sep # s) = [] # split sep s"
  by simp

lemma split_Cons_other: "c \<noteq> sep \<Longrightarrow> split sep (c # s) = (c # hd (split sep s)) # tl (split sep s)"
  by (cases "split sep s") simp_all

lemma join_Cons_head: "join sep ((c # w) # ws) = c # join sep (w # ws)"
  by (cases ws) simp_all

lemma join_split: "join [sep] (split sep s) = s"
proof (induction s)
  case Nil
  show ?case by simp
next
  case (Cons c s)
  obtain w ws where sp: "split sep s = w # ws"
    by (cases "split sep s") simp_all
  show ?case
  proof (cases "c = sep")
    case True
    with Cons sp show ?thesis by simp
  next
    case False
    with Cons sp show ?thesis by (simp add: join_Cons_head)
  qed
qed

lemma split_no_sep: "seg \<in> set (split sep s) \<Longrightarrow> sep \<notin> set seg"
proof (induction s arbitrary: seg)
  case Nil
  then show ?case by simp
next
  case (Cons c s)
  obtain w ws where sp: "split sep s = w # ws"
    by (cases "split sep s") simp_all
  show ?case
  proof (cases "c = sep")
    case True
    with Cons sp show ?thesis by auto
  next
    case False
    with Cons.prems sp have "seg = c # w \<or> seg \<in> set ws" by simp
    then show ?thesis
    proof
      assume "seg = c # w"
      moreover have "sep \<notin> set w" using Cons.IH [of w] sp by simp
      ultimately show ?thesis using False by simp
    next
      assume "seg \<in> set ws"
      then show ?thesis using Cons.IH [of seg] sp by simp
    qed
  qed
qed

lemma length_split: "length (split sep s) = Suc (length (filter (\<lambda>c. c = sep) s))"
proof (induction s)
  case Nil
  show ?case by simp
next
  case (Cons c s)
  obtain w ws where sp: "split sep s = w # ws"
    by (cases "split sep s") simp_all
  with Cons show ?case by simp
qed

lemma well_formed_split: "list_all well_formed (split slash s) = well_formed s"
proof (induction s rule: well_formed.induct)
  case 1
  show ?case by simp
next
  case (2 c cs)
  show ?case
  proof (cases "is_lead c")
    case lead: True
    then have cns: "c \<noteq> slash" using slash_not_surrogate by auto
    show ?thesis
    proof (cases cs)
      case Nil
      with lead cns show ?thesis by simp
    next
      case (Cons d ds)
      obtain w ws where sp: "split slash ds = w # ws"
        by (cases "split slash ds") simp_all
      have ih: "list_all well_formed (split slash ds) = well_formed ds"
        using 2(1) [OF lead Cons] .
      show ?thesis
      proof (cases "d = slash")
        case True
        with lead cns Cons slash_not_surrogate show ?thesis by simp
      next
        case False
        with lead cns Cons sp ih show ?thesis by simp
      qed
    qed
  next
    case nolead: False
    obtain w ws where sp: "split slash cs = w # ws"
      by (cases "split slash cs") simp_all
    have ih: "list_all well_formed (split slash cs) = well_formed cs"
      using 2(2) [OF nolead] .
    show ?thesis
    proof (cases "c = slash")
      case True
      with nolead sp ih slash_not_surrogate show ?thesis by simp
    next
      case False
      with nolead sp ih show ?thesis by simp
    qed
  qed
qed


lemma encode_total:
  "encodeURIComponent s = Inl URIError \<and> \<not> well_formed s \<or>
   (\<exists>r. encodeURIComponent s = Inr r) \<and> well_formed s"
proof (induction s rule: encodeURIComponent.induct)
  case 1
  show ?case by simp
next
  case (2 c cs)
  show ?case
  proof (cases "uri_unreserved c")
    case True
    with 2(1) unreserved_not_surrogate [of c] show ?thesis by auto
  next
    case nu: False
    show ?thesis
    proof (cases "is_lead c")
      case True
      show ?thesis
      proof (cases cs)
        case Nil
        with nu True show ?thesis by simp
      next
        case (Cons d ds)
        show ?thesis
        proof (cases "is_trail d")
          case tr: True
          from 2(2) [OF nu True Cons tr] nu True Cons tr show ?thesis by auto
        next
          case False
          with nu True Cons show ?thesis by simp
        qed
      qed
    next
      case nl: False
      show ?thesis
      proof (cases "is_trail c")
        case True
        with nu nl show ?thesis by simp
      next
        case False
        from 2(3) [OF nu nl False] nu nl False show ?thesis by auto
      qed
    qed
  qed
qed

lemma encode_well_formed: "well_formed s \<Longrightarrow> \<exists>r. encodeURIComponent s = Inr r"
  using encode_total [of s] by auto

lemma encode_ill_formed: "\<not> well_formed s \<Longrightarrow> encodeURIComponent s = Inl URIError"
  using encode_total [of s] by auto

lemma map_e_job_segment:
  "map_e job_segment segs =
     (case map_e encodeURIComponent segs of
        Inl e \<Rightarrow> Inl e
      | Inr encs \<Rightarrow> Inr (map ((@) job_marker) encs))"
proof (induction segs)
  case Nil
  show ?case by simp
next
  case (Cons a segs)
  show ?case
  proof (cases "encodeURIComponent a")
    case (Inl e)
    then show ?thesis by (simp add: job_segment_def)
  next
    case (Inr r)
    with Cons show ?thesis
      by (cases "map_e encodeURIComponent segs") (simp_all add: job_segment_def)
  qed
qed

lemma map_e_encode_ok:
  "list_all well_formed segs \<Longrightarrow>
     \<exists>encs. map_e encodeURIComponent segs = Inr encs \<and> length encs = length segs \<and>
       (\<forall>i < length segs. encodeURIComponent (segs ! i) = Inr (encs ! i))"
proof (induction segs)
  case Nil
  show ?case by simp
next
  case (Cons a segs)
  then obtain encs where e: "map_e encodeURIComponent segs = Inr encs"
      "length encs = length segs"
      "\<forall>i < length segs. encodeURIComponent (segs ! i) = Inr (encs ! i)"
    by auto
  from Cons.prems obtain r where r: "encodeURIComponent a = Inr r"
    using encode_well_formed [of a] by auto
  have "\<forall>i < length (a # segs). encodeURIComponent ((a # segs) ! i) = Inr ((r # encs) ! i)"
  proof (intro allI impI)
    fix i assume "i < length (a # segs)"
    then show "encodeURIComponent ((a # segs) ! i) = Inr ((r # encs) ! i)"
      using r e(3) by (cases i) simp_all
  qed
  with e r show ?case by simp
qed

lemma map_e_encode_fail:
  "\<not> list_all well_formed segs \<Longrightarrow> map_e encodeURIComponent segs = Inl URIError"
proof (induction segs)
  case Nil
  then show ?case by simp
next
  case (Cons a segs)
  show ?case
  proof (cases "well_formed a")
    case True
    then obtain r where "encodeURIComponent a = Inr r"
      using encode_well_formed [of a] by auto
    with Cons True show ?thesis by simp
  next
    case False
    then show ?thesis by (simp add: encode_ill_formed)
  qed
qed

lemma jobPath_ill_formed: "\<not> well_formed jobName \<Longrightarrow> jobPath jobName = Inl URIError"
  by (simp add: jobPath_def map_e_job_segment map_e_encode_fail well_formed_split)

lemma jobPath_encoded:
  "map_e encodeURIComponent (split slash jobName) = Inr encs \<Longrightarrow>
     jobPath jobName = Inr (join [slash] (map ((@) job_marker) encs))"
  by (simp add: jobPath_def map_e_job_segment)


lemma occurrences_absent:
  "x \<in> set pat \<Longrightarrow> x \<notin> set e \<Longrightarrow> occurrences pat e = 0"
proof (induction e)
  case Nil
  then show ?case by auto
next
  case (Cons a e)
  have "\<not> prefix pat (a # e)"
  proof
    assume "prefix pat (a # e)"
    then have "set pat \<subseteq> set (a # e)" by (rule set_mono_prefix)
    with Cons.prems show False by auto
  qed
  with Cons show ?case by simp
qed

lemma prefix_upto_sep:
  "sep \<notin> set J \<Longrightarrow> sep \<notin> set e \<Longrightarrow> prefix (J @ [sep]) (e @ sep # t) \<longleftrightarrow> e = J"
proof (induction J arbitrary: e)
  case Nil
  then show ?case by (cases e) auto
next
  case (Cons x J)
  show ?case
  proof (cases e)
    case Nil
    with Cons.prems show ?thesis by auto
  next
    case (Cons y e')
    with Cons.prems Cons.IH [of e'] show ?thesis by auto
  qed
qed

lemma occurrences_scan:
  "sep \<notin> set J \<Longrightarrow> sep \<notin> set e \<Longrightarrow>
     occurrences (J @ [sep]) (e @ sep # t) =
       (if suffix J e then 1 else 0) + occurrences (J @ [sep]) t"
proof (induction e)
  case Nil
  have "prefix (J @ [sep]) ([] @ sep # t) \<longleftrightarrow> [] = J"
    using prefix_upto_sep [of sep J "[]" t] Nil.prems by simp
  then show ?case by auto
next
  case (Cons c e)
  have p: "prefix (J @ [sep]) ((c # e) @ sep # t) \<longleftrightarrow> c # e = J"
    using prefix_upto_sep [of sep J "c # e" t] Cons.prems by simp
  have ih: "occurrences (J @ [sep]) (e @ sep # t) =
      (if suffix J e then 1 else 0) + occurrences (J @ [sep]) t"
    using Cons by simp
  have s: "suffix J (c # e) \<longleftrightarrow> J = c # e \<or> suffix J e"
    by (rule suffix_Cons)
  have n: "J = c # e \<Longrightarrow> \<not> suffix J e"
  proof
    assume a: "J = c # e" and b: "suffix J e"
    from b have "length J \<le> length e" by (rule suffix_length_le)
    with a show False by simp
  qed
  show ?case
  proof (cases "c # e = J")
    case True
    with n have "\<not> suffix J e" by auto
    with True p ih s show ?thesis by auto
  next
    case False
    with p ih s show ?thesis by auto
  qed
qed

lemma occurrences_join_Cons:
  assumes J: "sep \<notin> set J"
  shows "\<forall>x \<in> set (e # rest). sep \<notin> set x \<Longrightarrow>
     occurrences (J @ [sep]) (join [sep] (map ((@) (J @ [sep])) (e # rest))) =
       length (e # rest) + length (filter (suffix J) (butlast (e # rest)))"
proof (induction rest arbitrary: e)
  case Nil
  have "occurrences (J @ [sep]) (J @ sep # e) =
      (if suffix J J then 1 else 0) + occurrences (J @ [sep]) e"
    using occurrences_scan [of sep J J e] J by simp
  moreover have "occurrences (J @ [sep]) e = 0"
    using occurrences_absent [of sep "J @ [sep]" e] Nil by simp
  ultimately show ?case by simp
next
  case (Cons e' rest)
  define t where "t = join [sep] (map ((@) (J @ [sep])) (e' # rest))"
  have p: "\<forall>x \<in> set (e' # rest). sep \<notin> set x"
    using Cons.prems by simp
  have ih: "occurrences (J @ [sep]) t =
      length (e' # rest) + length (filter (suffix J) (butlast (e' # rest)))"
    unfolding t_def by (rule Cons.IH [OF p])
  have j: "join [sep] (map ((@) (J @ [sep])) (e # e' # rest)) = J @ sep # (e @ sep # t)"
    unfolding t_def by simp
  have b: "butlast (e # e' # rest) = e # butlast (e' # rest)"
    by simp
  have s1: "occurrences (J @ [sep]) (J @ sep # (e @ sep # t)) =
      1 + occurrences (J @ [sep]) (e @ sep # t)"
    using occurrences_scan [of sep J J "e @ sep # t"] J by simp
  have s2: "occurrences (J @ [sep]) (e @ sep # t) =
      (if suffix J e then 1 else 0) + occurrences (J @ [sep]) t"
    using occurrences_scan [of sep J e t] J Cons.prems by simp
  show ?case
    unfolding j b s1 s2 ih by simp
qed

lemma occurrences_join:
  assumes "sep \<notin> set J" and "\<forall>e \<in> set encs. sep \<notin> set e" and "encs \<noteq> []"
  shows "occurrences (J @ [sep]) (join [sep] (map ((@) (J @ [sep])) encs)) =
           length encs + length (filter (suffix J) (butlast encs))"
proof -
  from assms(3) obtain e rest where "encs = e # rest" by (cases encs) auto
  with assms(1,2) occurrences_join_Cons [of sep J e rest] show ?thesis by simp
qed

subsection \<open>The encoded form of a segment contains no slash\<close>

lemma unreserved_not_slash: "uri_unreserved c \<Longrightarrow> c \<noteq> slash"
  unfolding uri_unreserved_def slash_def
  by (auto simp: word_le_nat_alt)

lemma unat_of_nat16: "n < 65536 \<Longrightarrow> unat (of_nat n :: 16 word) = n"
  by (simp add: unat_of_nat)

lemma hex_upper_not_slash: "d < 16 \<Longrightarrow> hex_upper d \<noteq> slash"
proof
  assume d: "d < 16" and eq: "hex_upper d = slash"
  define n where "n = (if d < 10 then 0x30 + d else 0x41 + (d - 10))"
  have h: "hex_upper d = of_nat n"
    unfolding n_def hex_upper_def by (simp only: if_distrib [of of_nat])
  have "n < 65536" using d by (simp add: n_def)
  then have "unat (of_nat n :: 16 word) = n" by (rule unat_of_nat16)
  with h eq have "n = unat slash" by simp
  then have "n = 47" by (simp add: slash_def)
  with d show False by (simp add: n_def split: if_splits)
qed

lemma pct_no_slash: "b < 256 \<Longrightarrow> slash \<notin> set (pct b)"
proof -
  assume "b < 256"
  then have "b div 16 < 16" and "b mod 16 < 16" by simp_all
  then have "hex_upper (b div 16) \<noteq> slash" and "hex_upper (b mod 16) \<noteq> slash"
    by (simp_all add: hex_upper_not_slash)
  then show ?thesis by (auto simp: pct_def slash_def)
qed

lemma utf8_octets: "cp < 0x110000 \<Longrightarrow> b \<in> set (utf8 cp) \<Longrightarrow> b < 256"
  by (auto simp: utf8_def split: if_splits)

lemma pair_code_point_bound:
  "is_lead c \<Longrightarrow> is_trail d \<Longrightarrow> pair_code_point c d < 0x110000"
proof -
  assume "is_lead c" and "is_trail d"
  then have "unat c \<le> 0xDBFF" and "unat d \<le> 0xDFFF"
    by (simp_all add: is_lead_def is_trail_def word_le_nat_alt)
  then have "unat c - 0xD800 \<le> 0x3FF" and "unat d - 0xDC00 \<le> 0x3FF" by simp_all
  then have "(unat c - 0xD800) * 0x400 + (unat d - 0xDC00) \<le> 0x3FF * 0x400 + 0x3FF"
    by (intro add_mono mult_le_mono1)
  then show ?thesis by (simp add: pair_code_point_def)
qed

lemma unit_code_point_bound: "unat (c :: 16 word) < 0x110000"
proof -
  have "unat c < 2 ^ 16" using unsigned_less [of c] by simp
  then show ?thesis by simp
qed

lemma pct_utf8_no_slash:
  "cp < 0x110000 \<Longrightarrow> slash \<notin> set (concat (map pct (utf8 cp)))"
  using utf8_octets [of cp] pct_no_slash by auto


lemma encode_no_slash: "encodeURIComponent s = Inr r \<Longrightarrow> slash \<notin> set r"
proof (induction s arbitrary: r rule: encodeURIComponent.induct)
  case 1
  then show ?case by simp
next
  case (2 c cs)
  show ?case
  proof (cases "uri_unreserved c")
    case True
    with 2(4) obtain r' where r': "encodeURIComponent cs = Inr r'" "r = c # r'"
      by (cases "encodeURIComponent cs") auto
    from 2(1) [OF True r'(1)] r'(2) unreserved_not_slash [OF True] show ?thesis by auto
  next
    case nu: False
    show ?thesis
    proof (cases "is_lead c")
      case lead: True
      show ?thesis
      proof (cases cs)
        case Nil
        with nu lead 2(4) show ?thesis by simp
      next
        case (Cons d ds)
        show ?thesis
        proof (cases "is_trail d")
          case tr: True
          with nu lead Cons 2(4) obtain r' where
            r': "encodeURIComponent ds = Inr r'"
                "r = concat (map pct (utf8 (pair_code_point c d))) @ r'"
            by (cases "encodeURIComponent ds") auto
          from 2(2) [OF nu lead Cons tr r'(1)] r'(2)
            pct_utf8_no_slash [OF pair_code_point_bound [OF lead tr]]
          show ?thesis by auto
        next
          case False
          with nu lead Cons 2(4) show ?thesis by simp
        qed
      qed
    next
      case nl: False
      show ?thesis
      proof (cases "is_trail c")
        case True
        with nu nl 2(4) show ?thesis by simp
      next
        case nt: False
        with nu nl 2(4) obtain r' where
          r': "encodeURIComponent cs = Inr r'" "r = concat (map pct (utf8 (unat c))) @ r'"
          by (cases "encodeURIComponent cs") auto
        from 2(3) [OF nu nl nt r'(1)] r'(2) pct_utf8_no_slash [OF unit_code_point_bound [of c]]
        show ?thesis by auto
      qed
    qed
  qed
qed

lemma map_e_no_slash:
  "map_e encodeURIComponent segs = Inr encs \<Longrightarrow> \<forall>e \<in> set encs. slash \<notin> set e"
proof (induction segs arbitrary: encs)
  case Nil
  then show ?case by simp
next
  case (Cons a segs)
  from Cons.prems obtain r where r: "encodeURIComponent a = Inr r"
    by (cases "encodeURIComponent a") auto
  with Cons.prems obtain rs where rs: "map_e encodeURIComponent segs = Inr rs" "encs = r # rs"
    by (cases "map_e encodeURIComponent segs") auto
  from Cons.IH [OF rs(1)] encode_no_slash [OF r] rs(2) show ?case by simp
qed

section \<open>The job path resolver\<close>

text \<open>
  Claim C2, as amended. For every job identifier that is well-formed UTF-16 (every
  surrogate is part of a pair), the resolver splits the identifier on \<open>/\<close>,
  percent-encodes each segment, puts the marker \<open>job/\<close> before each encoded segment and
  joins the results with \<open>/\<close>: an identifier with N segments resolves to N pieces of
  the form marker, encoded segment. The marker occurs in the path once for each
  segment, and once more for each segment but the last whose encoded form ends in
  \<open>job\<close>; so it occurs exactly N times when there is no such segment. The empty
  identifier resolves to the marker alone. An identifier that is not well formed
  raises \<open>URIError\<close>. The segments are the parts between the slashes: joined with
  \<open>/\<close> they give the identifier back, and none contains a slash.
\<close>

theorem jobPath_resolution:
  "(well_formed jobName \<longrightarrow>
      (\<exists>encs. map_e encodeURIComponent (split slash jobName) = Inr encs \<and>
         length encs = length (split slash jobName) \<and>
         (\<forall>i < length encs. encodeURIComponent (split slash jobName ! i) = Inr (encs ! i)) \<and>
         jobPath jobName = Inr (join [slash] (map ((@) job_marker) encs)) \<and>
         occurrences job_marker (join [slash] (map ((@) job_marker) encs)) =
           length encs + length (filter (suffix (lit ''job'')) (butlast encs)))) \<and>
   (\<not> well_formed jobName \<longrightarrow> jobPath jobName = Inl URIError) \<and>
   jobPath [] = Inr job_marker \<and>
   join [slash] (split slash jobName) = jobName \<and>
   (\<forall>seg \<in> set (split slash jobName). slash \<notin> set seg)"
proof (intro conjI impI)
  assume wf: "well_formed jobName"
  then have "list_all well_formed (split slash jobName)"
    by (simp add: well_formed_split)
  then obtain encs where e: "map_e encodeURIComponent (split slash jobName) = Inr encs"
      "length encs = length (split slash jobName)"
      "\<forall>i < length (split slash jobName). encodeURIComponent (split slash jobName ! i) = Inr (encs ! i)"
    using map_e_encode_ok [of "split slash jobName"] by auto
  have ne: "encs \<noteq> []" using e(2) by auto
  have m: "job_marker = lit ''job'' @ [slash]"
    by (simp add: job_marker_def lit_def slash_def)
  have j: "slash \<notin> set (lit ''job'')"
    by (simp add: lit_def slash_def)
  have "occurrences (lit ''job'' @ [slash])
          (join [slash] (map ((@) (lit ''job'' @ [slash])) encs)) =
        length encs + length (filter (suffix (lit ''job'')) (butlast encs))"
    using j map_e_no_slash [OF e(1)] ne by (rule occurrences_join)
  then have "occurrences job_marker (join [slash] (map ((@) job_marker) encs)) =
        length encs + length (filter (suffix (lit ''job'')) (butlast encs))"
    by (simp only: m)
  with e jobPath_encoded [OF e(1)]
  show "\<exists>encs. map_e encodeURIComponent (split slash jobName) = Inr encs \<and>
         length encs = length (split slash jobName) \<and>
         (\<forall>i < length encs. encodeURIComponent (split slash jobName ! i) = Inr (encs ! i)) \<and>
         jobPath jobName = Inr (join [slash] (map ((@) job_marker) encs)) \<and>
         occurrences job_marker (join [slash] (map ((@) job_marker) encs)) =
           length encs + length (filter (suffix (lit ''job'')) (butlast encs))"
    by auto
next
  assume "\<not> well_formed jobName"
  then show "jobPath jobName = Inl URIError" by (rule jobPath_ill_formed)
next
  show "jobPath [] = Inr job_marker"
    by (simp add: jobPath_def job_segment_def)
next
  show "join [slash] (split slash jobName) = jobName" by (rule join_split)
next
  show "\<forall>seg \<in> set (split slash jobName). slash \<notin> set seg"
    by (intro ballI) (rule split_no_sep)
qed

theorem jobPath_resolution_witness:
  "well_formed (lit ''a/b c'') \<and>
   jobPath (lit ''a/b c'') = Inr (lit ''job/a/job/b%20c'') \<and>
   occurrences job_marker (lit ''job/a/job/b%20c'') = 2 \<and>
   \<not> well_formed [0xD800] \<and> jobPath [0xD800] = Inl URIError"
  using jobPath_resolution [of "lit ''a/b c''"] jobPath_resolution [of "[0xD800]"]
  by (simp add: lit_def is_lead_def is_trail_def slash_def jobPath_def job_segment_def
      job_marker_def uri_unreserved_def utf8_def pct_def hex_upper_def)

text \<open>
  The claim as it is written fails twice. The identifier \<open>job/x\<close> has two segments and
  resolves to \<open>job/job/job/x\<close>, in which the marker occurs three times; and an
  identifier with an unpaired surrogate has no percent-encoded form: the resolver
  raises \<open>URIError\<close>.
\<close>

theorem jobPath_marker_count_counterexample:
  "jobPath (lit ''job/x'') = Inr (lit ''job/job/job/x'') \<and>
   length (split slash (lit ''job/x'')) = 2 \<and>
   occurrences job_marker (lit ''job/job/job/x'') = 3 \<and>
   jobPath [0xD800] = Inl URIError"
  by (simp add: lit_def is_lead_def is_trail_def slash_def jobPath_def job_segment_def
      job_marker_def uri_unreserved_def utf8_def pct_def hex_upper_def)

section \<open>Console output\<close>

lemma slice_from_neg_int:
  "0 < n \<Longrightarrow> slice_from (Finite (- of_nat n)) xs = drop (length xs - n) xs"
proof -
  assume n: "0 < n"
  have c: "\<lceil>- (of_nat n :: rat)\<rceil> = - int n"
    by (metis ceiling_of_int of_int_minus of_int_of_nat_eq)
  have "nat (max (int (length xs) + - int n) 0) = length xs - n"
    by simp
  with n c show ?thesis
    by (simp add: slice_from_def)
qed

lemma slice_last_100000:
  "slice_from (Finite (- 100000)) xs = drop (length xs - 100000) xs"
  using slice_from_neg_int [of 100000 xs] by simp

lemma truncate_long:
  "100000 < length txt \<Longrightarrow>
     truncate_step txt = truncation_marker @ drop (length txt - 100000) txt"
  by (simp add: truncate_step_def slice_last_100000)

lemma truncate_short: "length txt \<le> 100000 \<Longrightarrow> truncate_step txt = txt"
  by (simp add: truncate_step_def)


lemma join_append:
  "xs \<noteq> [] \<Longrightarrow> ys \<noteq> [] \<Longrightarrow> join sep (xs @ ys) = join sep xs @ sep @ join sep ys"
proof (induction xs rule: induct_list012)
  case 1
  then show ?case by simp
next
  case (2 x)
  then obtain y ys' where "ys = y # ys'" by (cases ys) auto
  then show ?case by simp
next
  case (3 x y zs)
  then show ?case by simp
qed

lemma tail_step_nat:
  assumes "0 < K"
  shows "tail_step (Some (Finite (of_nat K))) txt =
           join [newline] (drop (length (split newline txt) - K) (split newline txt))"
  using assms by (simp add: tail_step_def slice_from_neg_int)

lemma last_lines_suffix:
  assumes "0 < K" and "K < length (split newline txt)"
  shows "txt = join [newline] (take (length (split newline txt) - K) (split newline txt)) @
           [newline] @
           join [newline] (drop (length (split newline txt) - K) (split newline txt))"
proof -
  let ?ls = "split newline txt"
  let ?n = "length ?ls - K"
  have a: "take ?n ?ls \<noteq> []" using assms by simp
  have b: "drop ?n ?ls \<noteq> []" using assms by simp
  have "join [newline] (take ?n ?ls @ drop ?n ?ls) =
      join [newline] (take ?n ?ls) @ [newline] @ join [newline] (drop ?n ?ls)"
    using a b by (rule join_append)
  then show ?thesis by (simp add: join_split)
qed


text \<open>
  Claim C4, as amended. For a tail count \<open>K\<close> of at least 1 and a console text of \<open>M\<close>
  newline-separated lines with \<open>M > K\<close>, the tail step returns exactly the last \<open>K\<close>
  lines joined with newlines, and this is the suffix of the original text that follows
  the newline after line \<open>M - K\<close>.
\<close>

theorem tail_step_last_lines:
  "0 < K \<Longrightarrow> K < length (split newline txt) \<Longrightarrow>
     tail_step (Some (Finite (of_nat K))) txt =
       join [newline] (drop (length (split newline txt) - K) (split newline txt)) \<and>
     length (drop (length (split newline txt) - K) (split newline txt)) = K \<and>
     txt = join [newline] (take (length (split newline txt) - K) (split newline txt)) @
             [newline] @ tail_step (Some (Finite (of_nat K))) txt \<and>
     suffix (tail_step (Some (Finite (of_nat K))) txt) txt"
proof -
  assume K: "0 < K" "K < length (split newline txt)"
  let ?r = "join [newline] (drop (length (split newline txt) - K) (split newline txt))"
  let ?p = "join [newline] (take (length (split newline txt) - K) (split newline txt))"
  have t: "tail_step (Some (Finite (of_nat K))) txt = ?r"
    using K(1) by (rule tail_step_nat)
  have s: "txt = ?p @ [newline] @ ?r"
    using K by (rule last_lines_suffix)
  have "suffix ?r (?p @ [newline] @ ?r)"
    by (simp add: suffix_def)
  with s have "suffix ?r txt" by simp
  with t s K show ?thesis by simp
qed

theorem tail_step_last_lines_witness:
  "(0::nat) < 2 \<and> 2 < length (split newline (lit ''a\<newline>b\<newline>c'')) \<and>
   tail_step (Some (Finite 2)) (lit ''a\<newline>b\<newline>c'') = lit ''b\<newline>c''"
  using tail_step_last_lines [of 2 "lit ''a\<newline>b\<newline>c''"]
  by (simp add: lit_def newline_def)

text \<open>
  The claim as it is written includes \<open>K = 0\<close>, where it fails: the text \<open>a\nb\<close> has
  two lines, more than 0; its last 0 lines joined are the empty string, and the tail
  step with \<open>tail = 0\<close> returns the whole text.
\<close>

theorem tail_zero_counterexample:
  "0 < length (split newline (lit ''a\<newline>b'')) \<and>
   join [newline]
     (drop (length (split newline (lit ''a\<newline>b'')) - 0) (split newline (lit ''a\<newline>b''))) = [] \<and>
   tail_step (Some (Finite 0)) (lit ''a\<newline>b'') = lit ''a\<newline>b'' \<and>
   lit ''a\<newline>b'' \<noteq> []"
  by (simp add: lit_def newline_def tail_step_def)

text \<open>
  Claim C10. A tail that is absent, zero, negative, \<open>NaN\<close> or minus infinity leaves the
  console text unchanged, as an absent tail does; only a tail above zero selects lines:
  the result is then the join of \<open>lines.slice(-tail)\<close>, which for a whole number \<open>n\<close> of at
  least 1 is the last \<open>n\<close> lines (all of them when there are no more than \<open>n\<close>).
\<close>

theorem tail_step_falsy_or_positive:
  "tail_step None txt = txt \<and>
   (r \<le> 0 \<longrightarrow> tail_step (Some (Finite r)) txt = tail_step None txt) \<and>
   tail_step (Some NaN) txt = tail_step None txt \<and>
   tail_step (Some NegInfinity) txt = tail_step None txt \<and>
   (0 < r \<longrightarrow>
      tail_step (Some (Finite r)) txt =
        join [newline] (slice_from (Finite (- r)) (split newline txt))) \<and>
   tail_step (Some PosInfinity) txt = join [newline] (slice_from NegInfinity (split newline txt)) \<and>
   (0 < n \<longrightarrow>
      tail_step (Some (Finite (of_nat n))) txt =
        join [newline] (drop (length (split newline txt) - n) (split newline txt)))"
  by (auto simp: tail_step_def slice_from_neg_int)

theorem tail_step_falsy_or_positive_witness:
  "(- 3 :: rat) \<le> 0 \<and>
   tail_step (Some (Finite (- 3))) (lit ''a\<newline>b'') = lit ''a\<newline>b'' \<and>
   (0 :: rat) < 1 \<and> (0 :: nat) < 1 \<and>
   tail_step (Some (Finite 1)) (lit ''a\<newline>b'') = lit ''b''"
  using tail_step_falsy_or_positive [of "lit ''a\<newline>b''" "- 3" 1]
    tail_step_falsy_or_positive [of "lit ''a\<newline>b''" 1 1]
  by (simp add: lit_def newline_def)

section \<open>Requests and their failures\<close>

lemma jenkins_eq:
  "jenkins env srv hist path opts =
     (case srv hist (make_request env path opts) of
        Rejected \<Rightarrow> Inl FetchFailed
      | Responded res \<Rightarrow> if res_ok res then Inr res else Inl (HttpError (error_message res)),
      hist @ [(make_request env path opts, srv hist (make_request env path opts))])"
  by (simp add: jenkins_def Let_def split: outcome.split)

lemma request_then_jenkins:
  "request_then (jenkins env srv hist path opts) rest =
     (case srv hist (make_request env path opts) of
        Rejected \<Rightarrow> Inl FetchFailed
      | Responded res \<Rightarrow> if res_ok res then rest res else Inl (HttpError (error_message res)),
      hist @ [(make_request env path opts, srv hist (make_request env path opts))])"
  by (simp add: request_then_def jenkins_eq split: outcome.split)

lemma surfaces_no_request: "surfaces hist (r, hist)"
  by (simp add: surfaces_def)

lemma surfaces_request_then:
  "surfaces hist (request_then (jenkins env srv hist path opts) rest)"
proof -
  let ?req = "make_request env path opts"
  let ?r = "request_then (jenkins env srv hist path opts) rest"
  have s: "snd ?r = hist @ [(?req, srv hist ?req)]"
    by (simp add: request_then_jenkins)
  have "\<forall>req res. (req, Responded res) \<in> set [(?req, srv hist ?req)] \<longrightarrow> \<not> res_ok res \<longrightarrow>
      fst ?r = Inl (HttpError (error_message res))"
  proof (intro allI impI)
    fix req res
    assume "(req, Responded res) \<in> set [(?req, srv hist ?req)]" and "\<not> res_ok res"
    then have "srv hist ?req = Responded res" and "\<not> res_ok res" by simp_all
    then show "fst ?r = Inl (HttpError (error_message res))"
      by (simp add: request_then_jenkins)
  qed
  with s show ?thesis unfolding surfaces_def by blast
qed

lemma surfaces_after_ok:
  assumes "surfaces (hist @ [(req, out)]) r"
    and "\<And>res. out = Responded res \<Longrightarrow> res_ok res"
  shows "surfaces hist r"
proof -
  from assms(1) obtain new where n: "snd r = (hist @ [(req, out)]) @ new"
    "\<forall>q res. (q, Responded res) \<in> set new \<longrightarrow> \<not> res_ok res \<longrightarrow>
       fst r = Inl (HttpError (error_message res))"
    unfolding surfaces_def by blast
  have "snd r = hist @ ((req, out) # new)" using n(1) by simp
  moreover have "\<forall>q res. (q, Responded res) \<in> set ((req, out) # new) \<longrightarrow> \<not> res_ok res \<longrightarrow>
       fst r = Inl (HttpError (error_message res))"
    using n(2) assms(2) by auto
  ultimately show ?thesis unfolding surfaces_def by blast
qed

lemma surfaces_get_json_text: "surfaces hist (get_json_text env srv hist path)"
  unfolding get_json_text_def by (rule surfaces_request_then)

lemma surfaces_get_job_info: "surfaces hist (jenkins_get_job_info env srv hist job tree)"
  unfolding jenkins_get_job_info_def
  by (simp add: surfaces_no_request surfaces_get_json_text split: sum.split)

lemma surfaces_get_build_info:
  "surfaces hist (jenkins_get_build_info env srv hist job build tree)"
  unfolding jenkins_get_build_info_def
  by (simp add: surfaces_no_request surfaces_get_json_text split: sum.split)

lemma surfaces_get_params: "surfaces hist (jenkins_get_params env srv hist job)"
  unfolding jenkins_get_params_def
  by (simp add: surfaces_no_request surfaces_request_then split: sum.split)

lemma surfaces_get_console_output:
  "surfaces hist (jenkins_get_console_output env srv hist job build tail)"
  unfolding jenkins_get_console_output_def
  by (simp add: surfaces_no_request surfaces_request_then split: sum.split)

lemma surfaces_build: "surfaces hist (jenkins_build env srv hist job)"
  unfolding jenkins_build_def
  by (simp add: surfaces_no_request surfaces_request_then split: sum.split)

lemma surfaces_build_with_params:
  "surfaces hist (jenkins_build_with_params env srv hist job params)"
  unfolding jenkins_build_with_params_def
  by (simp add: Let_def surfaces_no_request surfaces_request_then split: sum.split)

lemma surfaces_get_queue_item: "surfaces hist (jenkins_get_queue_item env srv hist queue_id)"
  unfolding jenkins_get_queue_item_def by (rule surfaces_get_json_text)


lemma rebuild_tree_encoded:
  "encodeURIComponent rebuild_tree = Inr (lit ''actions%5Bparameters%5Bname%2Cvalue%5D%5D'')"
  by (simp add: rebuild_tree_def lit_def uri_unreserved_def is_lead_def is_trail_def utf8_def
      pct_def hex_upper_def)

lemma trigger_eq:
  "jobPath job = Inr jp \<Longrightarrow>
     trigger env srv hist job params =
       (if params \<noteq> []
        then jenkins env srv hist (jp @ lit ''/buildWithParameters'') (form_options (form_body params))
        else jenkins env srv hist (jp @ lit ''/build'') post_options)"
  by (simp add: trigger_def Let_def)

lemma surfaces_trigger_then:
  "surfaces hist (request_then (trigger env srv hist job params) rest)"
proof (cases "jobPath job")
  case (Inl e)
  then have "request_then (trigger env srv hist job params) rest = (Inl e, hist)"
    by (simp add: trigger_def Let_def request_then_def)
  then show ?thesis by (simp add: surfaces_no_request)
next
  case (Inr jp)
  then show ?thesis
    by (simp add: trigger_eq surfaces_request_then)
qed

text \<open>The handler of rebuild, once the job path is built.\<close>

lemma rebuild_unfold:
  assumes "jobPath job = Inr jp"
  shows "jenkins_rebuild env srv hist job build =
     (case srv hist (rebuild_info_request env jp build) of
        Rejected \<Rightarrow>
          (Inl FetchFailed, hist @ [(rebuild_info_request env jp build, Rejected)])
      | Responded r1 \<Rightarrow>
          if \<not> res_ok r1 then
            (Inl (HttpError (error_message r1)),
             hist @ [(rebuild_info_request env jp build, Responded r1)])
          else
            (case json_of r1 of
               Inl e \<Rightarrow> (Inl e, hist @ [(rebuild_info_request env jp build, Responded r1)])
             | Inr info \<Rightarrow>
                 (case extract_parameters info of
                    Inl e \<Rightarrow> (Inl e, hist @ [(rebuild_info_request env jp build, Responded r1)])
                  | Inr params \<Rightarrow>
                      request_then
                        (trigger env srv
                           (hist @ [(rebuild_info_request env jp build, Responded r1)])
                           job params)
                        (\<lambda>res. Inr (rebuild_text build params (location_of res))))))"
  using assms
  by (simp add: jenkins_rebuild_def rebuild_tree_encoded jenkins_eq rebuild_info_request_def
      split: outcome.split sum.split)

lemma surfaces_rebuild: "surfaces hist (jenkins_rebuild env srv hist job build)"
proof (cases "jobPath job")
  case (Inl e)
  then show ?thesis by (simp add: jenkins_rebuild_def surfaces_no_request)
next
  case (Inr jp)
  let ?req = "rebuild_info_request env jp build"
  show ?thesis
  proof (cases "srv hist ?req")
    case Rejected
    have "surfaces (hist @ [(?req, Rejected)]) (Inl FetchFailed, hist @ [(?req, Rejected)])"
      by (rule surfaces_no_request)
    then have "surfaces hist (Inl FetchFailed, hist @ [(?req, Rejected)])"
      by (rule surfaces_after_ok) simp
    with Inr Rejected show ?thesis by (simp add: rebuild_unfold)
  next
    case (Responded r1)
    show ?thesis
    proof (cases "res_ok r1")
      case False
      have "surfaces hist (request_then (jenkins env srv hist
          (jp @ lit ''/'' @ build @ lit ''/api/json?tree='' @
           lit ''actions%5Bparameters%5Bname%2Cvalue%5D%5D'')
          no_options) (\<lambda>res. Inl TypeError))"
        by (rule surfaces_request_then)
      with Inr Responded False show ?thesis
        by (simp add: rebuild_unfold request_then_jenkins rebuild_info_request_def)
    next
      case True
      let ?h1 = "hist @ [(?req, Responded r1)]"
      have ok: "\<And>res. Responded r1 = Responded res \<Longrightarrow> res_ok res"
        using True by simp
      have "surfaces ?h1 (jenkins_rebuild env srv hist job build)"
      proof (cases "json_of r1")
        case (Inl e)
        with Inr Responded True show ?thesis
          by (simp add: rebuild_unfold surfaces_no_request)
      next
        case info: (Inr info)
        show ?thesis
        proof (cases "extract_parameters info")
          case (Inl e)
          with Inr Responded True info show ?thesis
            by (simp add: rebuild_unfold surfaces_no_request)
        next
          case params: (Inr params)
          with Inr Responded True info show ?thesis
            by (simp add: rebuild_unfold surfaces_trigger_then)
        qed
      qed
      then show ?thesis using ok by (rule surfaces_after_ok)
    qed
  qed
qed

lemma surfaces_call_tool: "surfaces hist (call_tool env srv hist call)"
  by (cases call)
     (simp_all add: surfaces_get_job_info surfaces_get_build_info surfaces_get_params
        surfaces_get_console_output surfaces_build surfaces_build_with_params surfaces_rebuild
        surfaces_get_queue_item)

declare decimal.simps [simp del]

lemma slice_range_take: "slice_range 0 n xs = take n xs"
  by (simp add: slice_range_def Let_def min_def)

lemma error_message_parts:
  "error_message res =
     lit ''Jenkins '' @ decimal (res_status res) @ lit '' '' @ res_statusText res @ lit '': '' @
     take 500 (or_empty_string (res_text res))"
  by (simp add: error_message_def slice_range_take)

lemma digits_value_snoc: "digits_value (s @ [c]) = 10 * digits_value s + (uint c - 0x30)"
  by (simp add: digits_value_def)

lemma uint_digit: "d < 10 \<Longrightarrow> uint (of_nat (0x30 + d) :: 16 word) = 0x30 + int d"
proof -
  assume "d < 10"
  then have "0x30 + d < 65536" by simp
  then have "unat (of_nat (0x30 + d) :: 16 word) = 0x30 + d" by (rule unat_of_nat16)
  then have "int (unat (of_nat (0x30 + d) :: 16 word)) = int (0x30 + d)" by simp
  then show ?thesis by (simp only: uint_nat)
qed

lemma digits_value_decimal: "digits_value (decimal n) = int n"
proof (induction n rule: decimal.induct)
  case (1 n)
  show ?case
  proof (cases "n < 10")
    case True
    then have "decimal n = [of_nat (0x30 + n)]" by (simp add: decimal.simps)
    with True uint_digit [of n] show ?thesis by (simp add: digits_value_def)
  next
    case False
    then have d: "decimal n = decimal (n div 10) @ [of_nat (0x30 + n mod 10)]"
      by (subst decimal.simps) simp
    have "n mod 10 < 10" by simp
    then have u: "uint (of_nat (0x30 + n mod 10) :: 16 word) = 0x30 + int (n mod 10)"
      by (rule uint_digit)
    have "digits_value (decimal n) = 10 * int (n div 10) + int (n mod 10)"
      unfolding d digits_value_snoc u using 1 [OF False] by simp
    then show ?thesis by (simp add: zdiv_int zmod_int)
  qed
qed


text \<open>
  Claim C5. Whatever the operation, a response that is not ok (its status is outside
  200 to 299) to a request of the call makes the call fail with the error whose
  message is \<open>Jenkins\<close>, the status in decimal digits, the status text and the first 500
  code units of the body (the empty string when the body cannot be read); in
  particular a response with status 500 and the body \<open>internal error\<close> gives a message
  that contains \<open>500\<close> and \<open>internal error\<close>.
\<close>

theorem non_ok_response_fails:
  "call_tool env srv hist call = (result, hist') \<Longrightarrow>
   (req, Responded res) \<in> set (drop (length hist) hist') \<Longrightarrow> \<not> res_ok res \<Longrightarrow>
     result = Inl (HttpError (error_message res)) \<and>
     error_message res =
       lit ''Jenkins '' @ decimal (res_status res) @ lit '' '' @ res_statusText res @
       lit '': '' @ take 500 (or_empty_string (res_text res)) \<and>
     digits_value (decimal (res_status res)) = int (res_status res) \<and>
     sublist (decimal (res_status res)) (error_message res) \<and>
     sublist (res_statusText res) (error_message res) \<and>
     sublist (take 500 (or_empty_string (res_text res))) (error_message res) \<and>
     (res_status res = 500 \<and> res_text res = Some (lit ''internal error'') \<longrightarrow>
        sublist (lit ''500'') (error_message res) \<and>
        sublist (lit ''internal error'') (error_message res))"
proof -
  assume c: "call_tool env srv hist call = (result, hist')"
    and m: "(req, Responded res) \<in> set (drop (length hist) hist')"
    and n: "\<not> res_ok res"
  from surfaces_call_tool [of hist env srv call] c obtain new where
    new: "hist' = hist @ new"
      "\<forall>q r. (q, Responded r) \<in> set new \<longrightarrow> \<not> res_ok r \<longrightarrow>
         result = Inl (HttpError (error_message r))"
    unfolding surfaces_def by auto
  from new(1) m have "(req, Responded res) \<in> set new" by simp
  with new(2) n have r: "result = Inl (HttpError (error_message res))" by blast
  let ?d = "decimal (res_status res)"
  let ?b = "take 500 (or_empty_string (res_text res))"
  have e: "error_message res =
      lit ''Jenkins '' @ ?d @ lit '' '' @ res_statusText res @ lit '': '' @ ?b"
    by (rule error_message_parts)
  have s1: "sublist ?d (error_message res)"
    unfolding e by (rule sublist_appendI)
  have "sublist (res_statusText res)
      ((lit ''Jenkins '' @ ?d @ lit '' '') @ res_statusText res @ (lit '': '' @ ?b))"
    by (rule sublist_appendI)
  then have s2: "sublist (res_statusText res) (error_message res)"
    unfolding e by simp
  have "sublist ?b ((lit ''Jenkins '' @ ?d @ lit '' '' @ res_statusText res @ lit '': '') @ ?b @ [])"
    by (rule sublist_appendI)
  then have s3: "sublist ?b (error_message res)"
    unfolding e by simp
  have d500: "decimal 500 = lit ''500''"
    by (simp add: decimal.simps lit_def)
  have s4: "res_status res = 500 \<and> res_text res = Some (lit ''internal error'') \<longrightarrow>
      sublist (lit ''500'') (error_message res) \<and>
      sublist (lit ''internal error'') (error_message res)"
  proof
    assume a: "res_status res = 500 \<and> res_text res = Some (lit ''internal error'')"
    then have "?b = lit ''internal error''" by (simp add: lit_def)
    with a s1 s3 d500 show "sublist (lit ''500'') (error_message res) \<and>
      sublist (lit ''internal error'') (error_message res)" by simp
  qed
  from r e s1 s2 s3 s4 digits_value_decimal [of "res_status res"] show ?thesis by blast
qed

lemma call_build_error_500:
  "call_tool example_env (constant_server error_500) [] (Build (lit ''a'')) =
     (Inl (HttpError (lit ''Jenkins 500 Internal Server Error: internal error'')),
      [(make_request example_env (lit ''job/a/build'') post_options, Responded error_500)])"
  by (simp add: jenkins_build_def request_then_jenkins constant_server_def error_500_def
      res_ok_def error_message_parts decimal.simps jobPath_def job_segment_def job_marker_def
      lit_def slash_def uri_unreserved_def)

theorem non_ok_response_fails_witness:
  "call_tool example_env (constant_server error_500) [] (Build (lit ''a'')) =
     (Inl (HttpError (lit ''Jenkins 500 Internal Server Error: internal error'')),
      [(make_request example_env (lit ''job/a/build'') post_options, Responded error_500)]) \<and>
   \<not> res_ok error_500 \<and>
   error_message error_500 = lit ''Jenkins 500 Internal Server Error: internal error'' \<and>
   sublist (lit ''500'') (lit ''Jenkins 500 Internal Server Error: internal error'') \<and>
   sublist (lit ''internal error'') (lit ''Jenkins 500 Internal Server Error: internal error'')"
proof -
  let ?req = "make_request example_env (lit ''job/a/build'') post_options"
  have n: "\<not> res_ok error_500" by (simp add: res_ok_def error_500_def)
  have m: "(?req, Responded error_500) \<in> set (drop (length []) [(?req, Responded error_500)])"
    by simp
  have e: "error_message error_500 = lit ''Jenkins 500 Internal Server Error: internal error''"
    by (simp add: error_message_parts error_500_def decimal.simps lit_def)
  have s: "res_status error_500 = 500 \<and> res_text error_500 = Some (lit ''internal error'')"
    by (simp add: error_500_def)
  from non_ok_response_fails [OF call_build_error_500 m n] s
  have "sublist (lit ''500'') (error_message error_500) \<and>
      sublist (lit ''internal error'') (error_message error_500)"
    by blast
  then have "sublist (lit ''500'') (lit ''Jenkins 500 Internal Server Error: internal error'') \<and>
      sublist (lit ''internal error'') (lit ''Jenkins 500 Internal Server Error: internal error'')"
    unfolding e .
  with call_build_error_500 n e show ?thesis by blast
qed

section \<open>Triggering a build\<close>










lemma job_a_path: "jobPath (lit ''a'') = Inr (lit ''job/a'')"
  by (simp add: jobPath_def job_segment_def job_marker_def lit_def slash_def uri_unreserved_def)




section \<open>Rebuild: the two requests\<close>

lemma extract_A_B:
  "extract_parameters info_A_B = Inr [(lit ''A'', lit ''1''), (lit ''B'', lit ''2'')]"
  by code_simp

lemma extract_none: "extract_parameters info_none = Inr []"
  by code_simp



lemma make_request_fields:
  "req_url (make_request env path opts) = JENKINS_URL env @ lit ''/'' @ path"
  "req_method (make_request env path no_options) = GET"
  "req_method (make_request env path post_options) = POST"
  "req_method (make_request env path (form_options body)) = POST"
  "req_body (make_request env path post_options) = None"
  "req_body (make_request env path (form_options body)) = Some body"
  by (simp_all add: make_request_def no_options_def post_options_def form_options_def)

lemma info_request_is_get: "req_method (rebuild_info_request env jp build) = GET"
  by (simp add: rebuild_info_request_def make_request_fields)

text \<open>
  Claim C7. In rebuild, when the first request fails (the fetch is rejected, or the
  response is not ok), and likewise when the body is not JSON or the extraction raises,
  the call fails with that error and the first request, a \<open>GET\<close>, is the only one
  issued: no build is triggered. When the second request is answered by a response
  that is not ok, the call fails with the error of that response.
\<close>

theorem rebuild_failures:
  "jobPath job = Inr jp \<Longrightarrow>
   jenkins_rebuild env srv hist job build = (result, hist') \<Longrightarrow>
     req_method (rebuild_info_request env jp build) = GET \<and>
     (srv hist (rebuild_info_request env jp build) = Rejected \<longrightarrow>
        result = Inl FetchFailed \<and> hist' = hist @ [(rebuild_info_request env jp build, Rejected)]) \<and>
     (\<forall>r1. srv hist (rebuild_info_request env jp build) = Responded r1 \<longrightarrow> \<not> res_ok r1 \<longrightarrow>
        result = Inl (HttpError (error_message r1)) \<and>
        hist' = hist @ [(rebuild_info_request env jp build, Responded r1)]) \<and>
     (\<forall>r1 e. srv hist (rebuild_info_request env jp build) = Responded r1 \<longrightarrow> res_ok r1 \<longrightarrow>
        json_of r1 = Inl e \<longrightarrow>
        result = Inl e \<and> hist' = hist @ [(rebuild_info_request env jp build, Responded r1)]) \<and>
     (\<forall>r1 info e. srv hist (rebuild_info_request env jp build) = Responded r1 \<longrightarrow> res_ok r1 \<longrightarrow>
        json_of r1 = Inr info \<longrightarrow> extract_parameters info = Inl e \<longrightarrow>
        result = Inl e \<and> hist' = hist @ [(rebuild_info_request env jp build, Responded r1)]) \<and>
     (\<forall>x1 req2 r2. hist' = hist @ [x1, (req2, Responded r2)] \<longrightarrow> \<not> res_ok r2 \<longrightarrow>
        result = Inl (HttpError (error_message r2)))"
proof -
  assume jp: "jobPath job = Inr jp"
    and r: "jenkins_rebuild env srv hist job build = (result, hist')"
  let ?req = "rebuild_info_request env jp build"
  note u = rebuild_unfold [OF jp, of env srv hist build]
  have a: "srv hist ?req = Rejected \<longrightarrow>
      result = Inl FetchFailed \<and> hist' = hist @ [(?req, Rejected)]"
    using u r by auto
  have b: "\<forall>r1. srv hist ?req = Responded r1 \<longrightarrow> \<not> res_ok r1 \<longrightarrow>
      result = Inl (HttpError (error_message r1)) \<and> hist' = hist @ [(?req, Responded r1)]"
    using u r by auto
  have c: "\<forall>r1 e. srv hist ?req = Responded r1 \<longrightarrow> res_ok r1 \<longrightarrow> json_of r1 = Inl e \<longrightarrow>
      result = Inl e \<and> hist' = hist @ [(?req, Responded r1)]"
    using u r by auto
  have d: "\<forall>r1 info e. srv hist ?req = Responded r1 \<longrightarrow> res_ok r1 \<longrightarrow>
      json_of r1 = Inr info \<longrightarrow> extract_parameters info = Inl e \<longrightarrow>
      result = Inl e \<and> hist' = hist @ [(?req, Responded r1)]"
    using u r by auto
  have e: "\<forall>x1 req2 r2. hist' = hist @ [x1, (req2, Responded r2)] \<longrightarrow> \<not> res_ok r2 \<longrightarrow>
      result = Inl (HttpError (error_message r2))"
  proof (intro allI impI)
    fix x1 req2 r2
    assume h: "hist' = hist @ [x1, (req2, Responded r2)]" and n: "\<not> res_ok r2"
    from surfaces_rebuild [of hist env srv job build] r obtain new where
      new: "hist' = hist @ new"
        "\<forall>q res. (q, Responded res) \<in> set new \<longrightarrow> \<not> res_ok res \<longrightarrow>
           result = Inl (HttpError (error_message res))"
      unfolding surfaces_def by auto
    from new(1) h have "new = [x1, (req2, Responded r2)]" by simp
    with new(2) n show "result = Inl (HttpError (error_message r2))" by simp
  qed
  from a b c d e info_request_is_get [of env jp build] show ?thesis by blast
qed

lemma not_ok_500: "\<not> res_ok error_500"
  by (simp add: res_ok_def error_500_def)

lemma ok_json_200: "res_ok (json_200 j)" "json_of (json_200 j) = Inr j"
  by (simp_all add: res_ok_def json_200_def json_of_def)

lemma rebuild_first_fails:
  "jenkins_rebuild example_env (constant_server error_500) [] (lit ''a'') (lit ''12'') =
     (Inl (HttpError (error_message error_500)),
      [] @ [(rebuild_info_request example_env (lit ''job/a'') (lit ''12''), Responded error_500)])"
  by (simp add: rebuild_unfold [OF job_a_path] constant_server_def not_ok_500)

lemma rebuild_second_fails:
  "jenkins_rebuild example_env (get_post_server info_A_B error_500) [] (lit ''a'') (lit ''12'') =
     (Inl (HttpError (error_message error_500)),
      [] @ [(rebuild_info_request example_env (lit ''job/a'') (lit ''12''),
             Responded (json_200 info_A_B)),
            (make_request example_env (lit ''job/a'' @ lit ''/buildWithParameters'')
               (form_options (form_body [(lit ''A'', lit ''1''), (lit ''B'', lit ''2'')])),
             Responded error_500)])"
  by (simp add: rebuild_unfold [OF job_a_path] get_post_server_def info_request_is_get
      ok_json_200 extract_A_B trigger_eq [OF job_a_path] request_then_jenkins
      make_request_fields not_ok_500)

theorem rebuild_failures_witness:
  "jobPath (lit ''a'') = Inr (lit ''job/a'') \<and> \<not> res_ok error_500 \<and>
   constant_server error_500 [] (rebuild_info_request example_env (lit ''job/a'') (lit ''12'')) =
     Responded error_500 \<and>
   req_method (rebuild_info_request example_env (lit ''job/a'') (lit ''12'')) = GET \<and>
   jenkins_rebuild example_env (constant_server error_500) [] (lit ''a'') (lit ''12'') =
     (Inl (HttpError (error_message error_500)),
      [] @ [(rebuild_info_request example_env (lit ''job/a'') (lit ''12''), Responded error_500)]) \<and>
   jenkins_rebuild example_env (get_post_server info_A_B error_500) [] (lit ''a'') (lit ''12'') =
     (Inl (HttpError (error_message error_500)),
      [] @ [(rebuild_info_request example_env (lit ''job/a'') (lit ''12''),
             Responded (json_200 info_A_B)),
            (make_request example_env (lit ''job/a'' @ lit ''/buildWithParameters'')
               (form_options (form_body [(lit ''A'', lit ''1''), (lit ''B'', lit ''2'')])),
             Responded error_500)])"
proof -
  have c: "constant_server error_500 []
      (rebuild_info_request example_env (lit ''job/a'') (lit ''12'')) = Responded error_500"
    by (simp add: constant_server_def)
  from rebuild_failures [OF job_a_path rebuild_first_fails]
  have g: "req_method (rebuild_info_request example_env (lit ''job/a'') (lit ''12'')) = GET"
    by (rule conjunct1)
  from job_a_path not_ok_500 c g rebuild_first_fails rebuild_second_fails
  show ?thesis by (intro conjI)
qed


lemma created_ok: "res_ok created_201"
  by (simp add: res_ok_def created_201_def)


lemma rebuild_A_B:
  "jenkins_rebuild example_env (get_post_server info_A_B created_201) [] (lit ''a'') (lit ''12'') =
     (Inr (rebuild_text (lit ''12'') [(lit ''A'', lit ''1''), (lit ''B'', lit ''2'')]
             (location_of created_201)),
      [(rebuild_info_request example_env (lit ''job/a'') (lit ''12''),
        Responded (json_200 info_A_B)),
       (make_request example_env (lit ''job/a'' @ lit ''/buildWithParameters'')
          (form_options (form_body [(lit ''A'', lit ''1''), (lit ''B'', lit ''2'')])),
        Responded created_201)])"
  by (simp add: rebuild_unfold [OF job_a_path] get_post_server_def info_request_is_get
      ok_json_200 extract_A_B trigger_eq [OF job_a_path] request_then_jenkins
      make_request_fields created_ok)

lemma rebuild_none:
  "jenkins_rebuild example_env (get_post_server info_none created_201) [] (lit ''a'') (lit ''12'') =
     (Inr (rebuild_text (lit ''12'') [] (location_of created_201)),
      [(rebuild_info_request example_env (lit ''job/a'') (lit ''12''),
        Responded (json_200 info_none)),
       (make_request example_env (lit ''job/a'' @ lit ''/build'') post_options,
        Responded created_201)])"
  by (simp add: rebuild_unfold [OF job_a_path] get_post_server_def info_request_is_get
      ok_json_200 extract_none trigger_eq [OF job_a_path] request_then_jenkins
      make_request_fields created_ok)


section \<open>The parameter definitions of a job\<close>














section \<open>Rebuild: the extracted parameters\<close>

lemma set_insert_index: "set (insert_index i k v kvs) = insert (k, v) (set kvs)"
proof (induction kvs)
  case Nil
  show ?case by simp
next
  case (Cons a kvs)
  obtain k' v' where a: "a = (k', v')" by (cases a)
  show ?case
  proof (cases "array_index k'")
    case None
    with a show ?thesis by auto
  next
    case (Some j)
    with a Cons show ?thesis by (cases "j < i") auto
  qed
qed

lemma keys_insert_index: "fst ` set (insert_index i k v kvs) = insert k (fst ` set kvs)"
  by (simp add: set_insert_index)

lemma map_of_insert_index_all:
  "k \<notin> fst ` set kvs \<Longrightarrow>
     \<forall>x. map_of (insert_index i k v kvs) x = (if x = k then Some v else map_of kvs x)"
proof (induction kvs)
  case Nil
  then show ?case by simp
next
  case (Cons a kvs)
  obtain k' v' where a: "a = (k', v')" by (cases a)
  from Cons.prems a have n: "k \<noteq> k'" and m: "k \<notin> fst ` set kvs" by auto
  show ?case
  proof (cases "array_index k'")
    case None
    with a show ?thesis by simp
  next
    case (Some j)
    show ?thesis
    proof (cases "j < i")
      case True
      with a Some Cons.IH [OF m] n show ?thesis by simp
    next
      case False
      with a Some show ?thesis by simp
    qed
  qed
qed

lemma map_of_insert_index:
  "k \<notin> fst ` set kvs \<Longrightarrow>
     map_of (insert_index i k v kvs) x = (if x = k then Some v else map_of kvs x)"
  using map_of_insert_index_all [of k kvs i v] by blast

lemma distinct_insert_index:
  "k \<notin> fst ` set kvs \<Longrightarrow> distinct (map fst kvs) \<Longrightarrow>
     distinct (map fst (insert_index i k v kvs))"
proof (induction kvs)
  case Nil
  then show ?case by simp
next
  case (Cons a kvs)
  obtain k' v' where a: "a = (k', v')" by (cases a)
  from Cons.prems a have n: "k \<noteq> k'" and m: "k \<notin> fst ` set kvs"
    and d: "distinct (map fst kvs)" and f: "k' \<notin> fst ` set kvs" by auto
  show ?case
  proof (cases "array_index k'")
    case None
    with a Cons.prems show ?thesis by auto
  next
    case (Some j)
    show ?thesis
    proof (cases "j < i")
      case True
      have "k' \<notin> fst ` set (insert_index i k v kvs)"
        using n f by (simp add: keys_insert_index)
      with a Some True Cons.IH [OF m d] show ?thesis by simp
    next
      case False
      with a Some Cons.prems show ?thesis by auto
    qed
  qed
qed


lemma keys_replace:
  "map fst (map (\<lambda>kv. if fst kv = k then (k, v) else kv) kvs) = map fst kvs"
proof (induction kvs)
  case Nil
  show ?case by simp
next
  case (Cons a kvs)
  then show ?case by (cases "fst a = k") simp_all
qed

lemma set_define_prop: "set (define_prop kvs k v) \<subseteq> insert (k, v) (set kvs)"
proof (cases "k \<in> fst ` set kvs")
  case True
  then show ?thesis by (auto simp: define_prop_def)
next
  case False
  then show ?thesis
    by (cases "array_index k") (auto simp: define_prop_def set_insert_index)
qed

lemma keys_define_prop: "fst ` set (define_prop kvs k v) = insert k (fst ` set kvs)"
proof (cases "k \<in> fst ` set kvs")
  case True
  have "set (map fst (map (\<lambda>kv. if fst kv = k then (k, v) else kv) kvs)) = set (map fst kvs)"
    by (simp only: keys_replace)
  then have "fst ` set (map (\<lambda>kv. if fst kv = k then (k, v) else kv) kvs) = fst ` set kvs"
    by (simp only: set_map)
  with True show ?thesis by (auto simp: define_prop_def)
next
  case False
  then show ?thesis
    by (cases "array_index k") (auto simp: define_prop_def set_insert_index)
qed

lemma map_of_replace_all:
  "\<forall>x. map_of (map (\<lambda>kv. if fst kv = k then (k, v) else kv) kvs) x =
       (if x = k \<and> k \<in> fst ` set kvs then Some v else map_of kvs x)"
proof (induction kvs)
  case Nil
  then show ?case by simp
next
  case (Cons a kvs)
  obtain k' v' where a: "a = (k', v')" by (cases a)
  show ?case
  proof (cases "k' = k")
    case True
    with a Cons.IH show ?thesis by auto
  next
    case False
    with a Cons.IH show ?thesis by auto
  qed
qed

lemma map_of_replace:
  "k \<in> fst ` set kvs \<Longrightarrow>
     map_of (map (\<lambda>kv. if fst kv = k then (k, v) else kv) kvs) x =
       (if x = k then Some v else map_of kvs x)"
  using map_of_replace_all [of k v kvs] by simp

lemma map_of_define_prop:
  "map_of (define_prop kvs k v) x = (if x = k then Some v else map_of kvs x)"
proof (cases "k \<in> fst ` set kvs")
  case True
  then show ?thesis by (simp add: define_prop_def map_of_replace)
next
  case False
  then have n: "map_of kvs k = None" by (simp add: map_of_eq_None_iff)
  show ?thesis
  proof (cases "array_index k")
    case None
    with False n show ?thesis by (auto simp: define_prop_def map_add_def split: option.split)
  next
    case (Some i)
    with False show ?thesis by (simp add: define_prop_def map_of_insert_index)
  qed
qed

lemma distinct_replace:
  "distinct (map fst kvs) \<Longrightarrow>
     distinct (map fst (map (\<lambda>kv. if fst kv = k then (k, v) else kv) kvs))"
  by (simp only: keys_replace)

lemma distinct_define_prop:
  "distinct (map fst kvs) \<Longrightarrow> distinct (map fst (define_prop kvs k v))"
proof (cases "k \<in> fst ` set kvs")
  case True
  assume "distinct (map fst kvs)"
  with True show ?thesis by (simp only: define_prop_def if_True distinct_replace)
next
  case False
  assume d: "distinct (map fst kvs)"
  show ?thesis
  proof (cases "array_index k")
    case None
    with False d show ?thesis by (auto simp: define_prop_def)
  next
    case (Some i)
    with False d show ?thesis by (simp add: define_prop_def distinct_insert_index)
  qed
qed

text \<open>The same for the assignment, which leaves \<open>__proto__\<close> out.\<close>

lemma set_obj_set: "set (obj_set kvs k v) \<subseteq> insert (k, v) (set kvs)"
  using set_define_prop [of kvs k v] by (auto simp: obj_set_def)

lemma map_of_obj_set:
  "k \<noteq> lit ''__proto__'' \<Longrightarrow>
     map_of (obj_set kvs k v) x = (if x = k then Some v else map_of kvs x)"
  by (simp add: obj_set_def map_of_define_prop)

lemma obj_set_proto: "obj_set kvs (lit ''__proto__'') v = kvs"
  by (simp add: obj_set_def)

lemma distinct_obj_set: "distinct (map fst kvs) \<Longrightarrow> distinct (map fst (obj_set kvs k v))"
  by (simp add: obj_set_def distinct_define_prop)

lemma assign_all_Cons:
  "assign_all obj (kv # kvs) = assign_all (obj_set obj (fst kv) (snd kv)) kvs"
  by (simp add: assign_all_def)

lemma assign_all_Nil: "assign_all obj [] = obj"
  by (simp add: assign_all_def)

lemma assign_all_append: "assign_all obj (xs @ ys) = assign_all (assign_all obj xs) ys"
  by (simp add: assign_all_def)

lemma set_assign_all: "set (assign_all obj kvs) \<subseteq> set obj \<union> set kvs"
proof (induction kvs arbitrary: obj)
  case Nil
  show ?case by (simp add: assign_all_Nil)
next
  case (Cons kv kvs)
  have "set (assign_all (obj_set obj (fst kv) (snd kv)) kvs) \<subseteq>
      set (obj_set obj (fst kv) (snd kv)) \<union> set kvs"
    by (rule Cons.IH)
  moreover have "set (obj_set obj (fst kv) (snd kv)) \<subseteq> insert kv (set obj)"
    using set_obj_set [of obj "fst kv" "snd kv"] by simp
  ultimately show ?case by (auto simp: assign_all_Cons)
qed

lemma distinct_assign_all:
  "distinct (map fst obj) \<Longrightarrow> distinct (map fst (assign_all obj kvs))"
proof (induction kvs arbitrary: obj)
  case Nil
  then show ?case by (simp add: assign_all_Nil)
next
  case (Cons kv kvs)
  from Cons.prems have "distinct (map fst (obj_set obj (fst kv) (snd kv)))"
    by (rule distinct_obj_set)
  then show ?case unfolding assign_all_Cons by (rule Cons.IH)
qed

lemma map_of_assign_all:
  "k \<noteq> lit ''__proto__'' \<Longrightarrow>
     map_of (assign_all obj kvs) k =
       (case map_of (rev kvs) k of Some v \<Rightarrow> Some v | None \<Rightarrow> map_of obj k)"
proof (induction kvs arbitrary: obj)
  case Nil
  show ?case by (simp add: assign_all_Nil)
next
  case (Cons kv kvs)
  obtain k0 v0 where kv: "kv = (k0, v0)" by (cases kv)
  have ih: "map_of (assign_all (obj_set obj k0 v0) kvs) k =
      (case map_of (rev kvs) k of Some v \<Rightarrow> Some v | None \<Rightarrow> map_of (obj_set obj k0 v0) k)"
    using Cons.IH [OF Cons.prems] .
  have o: "map_of (obj_set obj k0 v0) k = (if k = k0 then Some v0 else map_of obj k)"
  proof (cases "k0 = lit ''__proto__''")
    case True
    with Cons.prems show ?thesis by (simp add: obj_set_proto)
  next
    case False
    then show ?thesis by (rule map_of_obj_set)
  qed
  have r: "map_of (rev (kv # kvs)) k =
      (case map_of (rev kvs) k of Some v \<Rightarrow> Some v | None \<Rightarrow> if k = k0 then Some v0 else None)"
    by (simp add: kv map_add_def split: option.split)
  show ?case
    unfolding assign_all_Cons kv fst_conv snd_conv ih o
    using r [unfolded kv] by (simp split: option.split)
qed

lemma assignment_has_name_and_value: "assignment_of p = Some kv \<Longrightarrow> has_name_and_value p"
  by (auto simp: assignment_of_def has_name_and_value_def
      split: sum.splits option.splits if_splits)

lemma add_parameter_Inr:
  assumes "add_parameter p acc = Inr r"
  shows "r = assign_all acc (List.map_filter assignment_of [p]) \<and>
         (has_name_and_value p \<longrightarrow> assignment_of p \<noteq> None)"
proof (cases "get_prop (lit ''name'') p")
  case (Inl e)
  with assms show ?thesis by (simp add: add_parameter_def)
next
  case n: (Inr nm)
  show ?thesis
  proof (cases nm)
    case None
    with n assms show ?thesis
      by (simp add: add_parameter_def assignment_of_def has_name_and_value_def
          map_filter_simps assign_all_Nil)
  next
    case (Some name)
    show ?thesis
    proof (cases "truthy name")
      case False
      with n Some assms show ?thesis
        by (simp add: add_parameter_def assignment_of_def has_name_and_value_def
            map_filter_simps assign_all_Nil)
    next
      case t: True
      show ?thesis
      proof (cases "get_prop (lit ''value'') p")
        case (Inl e)
        with n Some t assms show ?thesis by (simp add: add_parameter_def)
      next
        case v: (Inr vl)
        show ?thesis
        proof (cases vl)
          case None
          with n Some t v assms show ?thesis
            by (simp add: add_parameter_def assignment_of_def has_name_and_value_def
                map_filter_simps assign_all_Nil)
        next
          case sv: (Some val)
          show ?thesis
          proof (cases "ToString val")
            case (Inl e)
            with n Some t v sv assms show ?thesis by (simp add: add_parameter_def)
          next
            case s: (Inr str)
            show ?thesis
            proof (cases "ToString name")
              case (Inl e)
              with n Some t v sv s assms show ?thesis by (simp add: add_parameter_def)
            next
              case k: (Inr key)
              with n Some t v sv s assms show ?thesis
                by (simp add: add_parameter_def assignment_of_def map_filter_simps
                    assign_all_Cons assign_all_Nil)
            qed
          qed
        qed
      qed
    qed
  qed
qed

lemma map_filter_append:
  "List.map_filter f (xs @ ys) = List.map_filter f xs @ List.map_filter f ys"
  by (simp add: List.map_filter_def)

lemma map_filter_Cons_single:
  "List.map_filter f (x # xs) = List.map_filter f [x] @ List.map_filter f xs"
  using map_filter_append [of f "[x]" xs] by simp

lemma fold_add_parameter:
  "fold_e add_parameter ps acc = Inr r \<Longrightarrow>
     r = assign_all acc (List.map_filter assignment_of ps) \<and>
     (\<forall>p \<in> set ps. has_name_and_value p \<longrightarrow> assignment_of p \<noteq> None)"
proof (induction ps arbitrary: acc)
  case Nil
  then show ?case by (simp add: map_filter_simps assign_all_Nil)
next
  case (Cons p ps)
  from Cons.prems obtain acc' where a: "add_parameter p acc = Inr acc'"
      "fold_e add_parameter ps acc' = Inr r"
    by (cases "add_parameter p acc") auto
  from add_parameter_Inr [OF a(1)] have
    s: "acc' = assign_all acc (List.map_filter assignment_of [p])"
    and h: "has_name_and_value p \<longrightarrow> assignment_of p \<noteq> None"
    by simp_all
  from Cons.IH [OF a(2)] have
    r: "r = assign_all acc' (List.map_filter assignment_of ps)"
    and hs: "\<forall>q \<in> set ps. has_name_and_value q \<longrightarrow> assignment_of q \<noteq> None"
    by simp_all
  have "r = assign_all acc (List.map_filter assignment_of (p # ps))"
    unfolding r s map_filter_Cons_single [of assignment_of p ps] assign_all_append ..
  with h hs show ?case by simp
qed

lemma add_action_Inr:
  assumes "add_action action acc = Inr r"
  shows "r = assign_all acc (List.map_filter assignment_of (parameters_of action)) \<and>
         (\<forall>p \<in> set (parameters_of action). has_name_and_value p \<longrightarrow> assignment_of p \<noteq> None)"
proof -
  from assms obtain ps where ps: "get_prop (lit ''parameters'') action = Inr ps"
    by (cases "get_prop (lit ''parameters'') action") (auto simp: add_action_def)
  with assms obtain plist where pl: "iterate (or_empty ps) = Inr plist"
    by (cases "iterate (or_empty ps)") (auto simp: add_action_def)
  with ps assms have f: "fold_e add_parameter plist acc = Inr r"
    by (simp add: add_action_def)
  have "parameters_of action = plist"
    using ps pl by (simp add: parameters_of_def)
  with fold_add_parameter [OF f] show ?thesis by simp
qed

lemma fold_add_action:
  "fold_e add_action actions acc = Inr r \<Longrightarrow>
     r = assign_all acc (List.map_filter assignment_of (concat (map parameters_of actions))) \<and>
     (\<forall>p \<in> set (concat (map parameters_of actions)).
        has_name_and_value p \<longrightarrow> assignment_of p \<noteq> None)"
proof (induction actions arbitrary: acc)
  case Nil
  then show ?case by (simp add: map_filter_simps assign_all_Nil)
next
  case (Cons a actions)
  from Cons.prems obtain acc' where a: "add_action a acc = Inr acc'"
      "fold_e add_action actions acc' = Inr r"
    by (cases "add_action a acc") auto
  from add_action_Inr [OF a(1)] have
    s: "acc' = assign_all acc (List.map_filter assignment_of (parameters_of a))"
    and h: "\<forall>p \<in> set (parameters_of a). has_name_and_value p \<longrightarrow> assignment_of p \<noteq> None"
    by simp_all
  from Cons.IH [OF a(2)] have
    r: "r = assign_all acc' (List.map_filter assignment_of (concat (map parameters_of actions)))"
    and hs: "\<forall>p \<in> set (concat (map parameters_of actions)).
        has_name_and_value p \<longrightarrow> assignment_of p \<noteq> None"
    by simp_all
  have "r = assign_all acc
      (List.map_filter assignment_of (concat (map parameters_of (a # actions))))"
    unfolding r s by (simp add: map_filter_append assign_all_append)
  moreover have "\<forall>p \<in> set (concat (map parameters_of (a # actions))).
      has_name_and_value p \<longrightarrow> assignment_of p \<noteq> None"
    using h hs by auto
  ultimately show ?case by blast
qed

lemma extract_parameters_Inr:
  assumes "extract_parameters info = Inr params"
  shows "params = assign_all [] (assignments info) \<and>
         (\<forall>p \<in> set (entries_of info). has_name_and_value p \<longrightarrow> assignment_of p \<noteq> None)"
proof -
  from assms obtain a where a: "get_prop (lit ''actions'') info = Inr a"
    by (cases "get_prop (lit ''actions'') info") (auto simp: extract_parameters_def)
  with assms obtain actions where ac: "iterate (or_empty a) = Inr actions"
    by (cases "iterate (or_empty a)") (auto simp: extract_parameters_def)
  with a assms have f: "fold_e add_action actions [] = Inr params"
    by (simp add: extract_parameters_def)
  have "actions_of info = actions"
    using a ac by (simp add: actions_of_def)
  with fold_add_action [OF f] show ?thesis
    by (simp add: assignments_def entries_of_def)
qed

lemma set_map_filter: "set (List.map_filter f xs) = {y. \<exists>x \<in> set xs. f x = Some y}"
  by (induction xs) (auto simp: map_filter_simps split: option.split)

lemma assignment_of_Some:
  "assignment_of p = Some (k, sv) \<Longrightarrow>
     \<exists>n v. get_prop (lit ''name'') p = Inr (Some n) \<and> truthy n \<and>
       get_prop (lit ''value'') p = Inr (Some v) \<and> ToString n = Inr k \<and> ToString v = Inr sv"
  by (auto simp: assignment_of_def split: sum.splits option.splits if_splits)

text \<open>
  Claim C6, as amended. When the extraction completes, every pair of the extracted set
  comes from an entry that has both a name and a defined value, and is the name of
  that entry as a property key with the string form of its value. Every such entry
  has its name among the keys of the set; the value kept under a name is that of the
  last such entry of the name, and the names of the set are distinct. Hence, when no
  two such entries have the same name, an entry is included in the set if and only
  if it has both a name and a defined value. (The name \<open>__proto__\<close> is left out of
  these statements.)
\<close>

theorem extract_parameters_entries:
  "extract_parameters info = Inr params \<Longrightarrow>
     (\<forall>k sv. (k, sv) \<in> set params \<longrightarrow>
        (\<exists>p \<in> set (entries_of info). \<exists>n v.
           has_name_and_value p \<and>
           get_prop (lit ''name'') p = Inr (Some n) \<and> truthy n \<and>
           get_prop (lit ''value'') p = Inr (Some v) \<and>
           ToString n = Inr k \<and> ToString v = Inr sv)) \<and>
     (\<forall>p \<in> set (entries_of info). has_name_and_value p \<longrightarrow>
        (\<exists>k sv. assignment_of p = Some (k, sv) \<and>
           (k \<noteq> lit ''__proto__'' \<longrightarrow> k \<in> fst ` set params))) \<and>
     (\<forall>k. k \<noteq> lit ''__proto__'' \<longrightarrow> map_of params k = map_of (rev (assignments info)) k) \<and>
     distinct (map fst params) \<and>
     (distinct (map fst (assignments info)) \<and>
      lit ''__proto__'' \<notin> fst ` set (assignments info) \<longrightarrow>
        (\<forall>p \<in> set (entries_of info). included p params \<longleftrightarrow> has_name_and_value p))"
proof -
  assume ex: "extract_parameters info = Inr params"
  from extract_parameters_Inr [OF ex] have
    p: "params = assign_all [] (assignments info)"
    and h: "\<forall>p \<in> set (entries_of info). has_name_and_value p \<longrightarrow> assignment_of p \<noteq> None"
    by simp_all
  have sub: "set params \<subseteq> set (assignments info)"
    using set_assign_all [of "[]" "assignments info"] p by simp
  have mem: "\<And>kv. kv \<in> set (assignments info) \<longleftrightarrow>
      (\<exists>q \<in> set (entries_of info). assignment_of q = Some kv)"
    by (simp add: assignments_def set_map_filter)
  have m: "\<forall>k. k \<noteq> lit ''__proto__'' \<longrightarrow> map_of params k = map_of (rev (assignments info)) k"
  proof (intro allI impI)
    fix k :: jsstring
    assume "k \<noteq> lit ''__proto__''"
    from map_of_assign_all [OF this, of "[]" "assignments info"] p
    show "map_of params k = map_of (rev (assignments info)) k"
      by (simp split: option.split)
  qed
  have d: "distinct (map fst params)"
    unfolding p by (rule distinct_assign_all) simp
  have a: "\<forall>k sv. (k, sv) \<in> set params \<longrightarrow>
      (\<exists>p \<in> set (entries_of info). \<exists>n v.
         has_name_and_value p \<and>
         get_prop (lit ''name'') p = Inr (Some n) \<and> truthy n \<and>
         get_prop (lit ''value'') p = Inr (Some v) \<and>
         ToString n = Inr k \<and> ToString v = Inr sv)"
  proof (intro allI impI)
    fix k sv
    assume "(k, sv) \<in> set params"
    with sub have "(k, sv) \<in> set (assignments info)" by blast
    then obtain q where q: "q \<in> set (entries_of info)" "assignment_of q = Some (k, sv)"
      using mem by blast
    from assignment_of_Some [OF q(2)] assignment_has_name_and_value [OF q(2)] q(1)
    show "\<exists>p \<in> set (entries_of info). \<exists>n v.
         has_name_and_value p \<and>
         get_prop (lit ''name'') p = Inr (Some n) \<and> truthy n \<and>
         get_prop (lit ''value'') p = Inr (Some v) \<and>
         ToString n = Inr k \<and> ToString v = Inr sv"
      by blast
  qed
  have b: "\<forall>q \<in> set (entries_of info). has_name_and_value q \<longrightarrow>
      (\<exists>k sv. assignment_of q = Some (k, sv) \<and>
         (k \<noteq> lit ''__proto__'' \<longrightarrow> k \<in> fst ` set params))"
  proof (intro ballI impI)
    fix q
    assume q: "q \<in> set (entries_of info)" and hq: "has_name_and_value q"
    with h obtain k sv where kv: "assignment_of q = Some (k, sv)" by fastforce
    with q have "(k, sv) \<in> set (assignments info)" using mem by blast
    then have "k \<in> fst ` set (rev (assignments info))" by force
    then have "map_of (rev (assignments info)) k \<noteq> None"
      by (simp add: map_of_eq_None_iff)
    with m have "k \<noteq> lit ''__proto__'' \<longrightarrow> map_of params k \<noteq> None" by simp
    then have "k \<noteq> lit ''__proto__'' \<longrightarrow> k \<in> fst ` set params"
      by (simp add: map_of_eq_None_iff)
    with kv show "\<exists>k sv. assignment_of q = Some (k, sv) \<and>
         (k \<noteq> lit ''__proto__'' \<longrightarrow> k \<in> fst ` set params)"
      by blast
  qed
  have e: "distinct (map fst (assignments info)) \<and>
      lit ''__proto__'' \<notin> fst ` set (assignments info) \<longrightarrow>
        (\<forall>q \<in> set (entries_of info). included q params \<longleftrightarrow> has_name_and_value q)"
  proof (intro impI ballI)
    fix q
    assume dn: "distinct (map fst (assignments info)) \<and>
      lit ''__proto__'' \<notin> fst ` set (assignments info)"
      and q: "q \<in> set (entries_of info)"
    show "included q params \<longleftrightarrow> has_name_and_value q"
    proof
      assume "included q params"
      then obtain kv where "assignment_of q = Some kv"
        by (auto simp: included_def split: option.splits)
      then show "has_name_and_value q" by (rule assignment_has_name_and_value)
    next
      assume hq: "has_name_and_value q"
      with h q obtain k sv where kv: "assignment_of q = Some (k, sv)" by fastforce
      with q have in_as: "(k, sv) \<in> set (assignments info)" using mem by blast
      with dn have np: "k \<noteq> lit ''__proto__''" by force
      from dn have "distinct (map fst (rev (assignments info)))"
        by (simp add: rev_map [symmetric])
      moreover from in_as have "(k, sv) \<in> set (rev (assignments info))" by simp
      ultimately have "map_of (rev (assignments info)) k = Some sv"
        by (rule map_of_is_SomeI)
      with m np have "map_of params k = Some sv" by simp
      then have "(k, sv) \<in> set params" by (rule map_of_SomeD)
      with kv show "included q params" by (simp add: included_def)
    qed
  qed
  from a b m d e show ?thesis by blast
qed

lemma extract_mixed:
  "extract_parameters info_mixed =
     Inr [(lit ''A'', lit ''true''), (lit ''B'', lit ''null'')]"
  by code_simp

lemma entries_mixed:
  "entries_of info_mixed = [entry_boolean, entry_null, entry_without_value, entry_empty_name]"
  by code_simp

lemma assignments_mixed:
  "assignments info_mixed = [(lit ''A'', lit ''true''), (lit ''B'', lit ''null'')]"
  by code_simp

lemma mixed_names:
  "distinct (map fst (assignments info_mixed)) \<and>
   lit ''__proto__'' \<notin> fst ` set (assignments info_mixed)"
  unfolding assignments_mixed by (simp add: lit_def)

lemma mixed_entries_qualify:
  "has_name_and_value entry_boolean" "has_name_and_value entry_null"
  "\<not> has_name_and_value entry_without_value" "\<not> has_name_and_value entry_empty_name"
  by code_simp+

theorem extract_parameters_entries_witness:
  "extract_parameters info_mixed = Inr [(lit ''A'', lit ''true''), (lit ''B'', lit ''null'')] \<and>
   distinct (map fst (assignments info_mixed)) \<and>
   lit ''__proto__'' \<notin> fst ` set (assignments info_mixed) \<and>
   has_name_and_value entry_boolean \<and>
   included entry_boolean [(lit ''A'', lit ''true''), (lit ''B'', lit ''null'')] \<and>
   has_name_and_value entry_null \<and>
   included entry_null [(lit ''A'', lit ''true''), (lit ''B'', lit ''null'')] \<and>
   \<not> has_name_and_value entry_without_value \<and>
   \<not> included entry_without_value [(lit ''A'', lit ''true''), (lit ''B'', lit ''null'')] \<and>
   \<not> has_name_and_value entry_empty_name \<and>
   \<not> included entry_empty_name [(lit ''A'', lit ''true''), (lit ''B'', lit ''null'')]"
proof -
  let ?ps = "[(lit ''A'', lit ''true''), (lit ''B'', lit ''null'')]"
  from extract_parameters_entries [OF extract_mixed] mixed_names
  have "\<forall>p \<in> set (entries_of info_mixed). included p ?ps \<longleftrightarrow> has_name_and_value p"
    by blast
  then have i: "included entry_boolean ?ps \<longleftrightarrow> has_name_and_value entry_boolean"
    "included entry_null ?ps \<longleftrightarrow> has_name_and_value entry_null"
    "included entry_without_value ?ps \<longleftrightarrow> has_name_and_value entry_without_value"
    "included entry_empty_name ?ps \<longleftrightarrow> has_name_and_value entry_empty_name"
    by (simp_all add: entries_mixed)
  from i mixed_entries_qualify extract_mixed mixed_names show ?thesis by blast
qed

text \<open>
  The claim as it is written fails for two entries of one name: both have a name and a
  defined value, and the extracted set holds the second only.
\<close>

theorem duplicate_name_counterexample:
  "entries_of info_A_twice = [entry_A_1, entry_A_2] \<and>
   has_name_and_value entry_A_1 \<and>
   assignment_of entry_A_1 = Some (lit ''A'', lit ''1'') \<and>
   extract_parameters info_A_twice = Inr [(lit ''A'', lit ''2'')] \<and>
   \<not> included entry_A_1 [(lit ''A'', lit ''2'')]"
  by code_simp

section \<open>Console output: the truncation\<close>

lemma console_output_ok:
  assumes "jobPath job = Inr jp"
    and "srv hist (console_request env jp build) = Responded res"
    and "res_ok res" and "res_text res = Some txt"
  shows "jenkins_get_console_output env srv hist job build tail =
     (Inr (truncate_step (tail_step tail txt)),
      hist @ [(console_request env jp build, Responded res)])"
  using assms
  by (simp add: jenkins_get_console_output_def request_then_jenkins console_request_def
      text_of_def)

text \<open>
  Claim C3. When the text that reaches the truncation step is longer than 100,000
  characters (UTF-16 code units, which is what \<open>length\<close> and \<open>slice\<close> count), the step
  returns the truncation marker followed by exactly the last 100,000 characters of
  that text; a text of at most 100,000 characters is returned unchanged. The text
  get_console_output returns for an ok response is the result of this step on the
  console text after the tail step, which is the console text itself when no tail is
  given.
\<close>

theorem truncate_step_trailing:
  "(100000 < length txt \<longrightarrow>
      truncate_step txt = truncation_marker @ drop (length txt - 100000) txt \<and>
      length (drop (length txt - 100000) txt) = 100000 \<and>
      suffix (drop (length txt - 100000) txt) txt) \<and>
   (length txt \<le> 100000 \<longrightarrow> truncate_step txt = txt) \<and>
   (jobPath job = Inr jp \<and> srv hist (console_request env jp build) = Responded res \<and>
    res_ok res \<and> res_text res = Some txt \<longrightarrow>
      jenkins_get_console_output env srv hist job build tail =
        (Inr (truncate_step (tail_step tail txt)),
         hist @ [(console_request env jp build, Responded res)]) \<and>
      jenkins_get_console_output env srv hist job build None =
        (Inr (truncate_step txt), hist @ [(console_request env jp build, Responded res)]))"
proof (intro conjI impI)
  assume "100000 < length txt"
  then show "truncate_step txt = truncation_marker @ drop (length txt - 100000) txt"
    by (rule truncate_long)
next
  assume "100000 < length txt"
  then show "length (drop (length txt - 100000) txt) = 100000" by simp
next
  show "suffix (drop (length txt - 100000) txt) txt" by (rule suffix_drop)
next
  assume "length txt \<le> 100000"
  then show "truncate_step txt = txt" by (rule truncate_short)
next
  assume a: "jobPath job = Inr jp \<and> srv hist (console_request env jp build) = Responded res \<and>
    res_ok res \<and> res_text res = Some txt"
  then show "jenkins_get_console_output env srv hist job build tail =
      (Inr (truncate_step (tail_step tail txt)),
       hist @ [(console_request env jp build, Responded res)])"
    by (simp add: console_output_ok)
next
  assume a: "jobPath job = Inr jp \<and> srv hist (console_request env jp build) = Responded res \<and>
    res_ok res \<and> res_text res = Some txt"
  then have "jenkins_get_console_output env srv hist job build None =
      (Inr (truncate_step (tail_step None txt)),
       hist @ [(console_request env jp build, Responded res)])"
    by (simp add: console_output_ok)
  then show "jenkins_get_console_output env srv hist job build None =
      (Inr (truncate_step txt), hist @ [(console_request env jp build, Responded res)])"
    by (simp add: tail_step_def)
qed

lemma text_200_ok: "res_ok (text_200 t)" "res_text (text_200 t) = Some t"
  by (simp_all add: text_200_def res_ok_def)

theorem truncate_step_trailing_witness:
  "100000 < length (replicate 100001 (0x61 :: 16 word)) \<and>
   truncate_step (replicate 100001 0x61) = truncation_marker @ replicate 100000 0x61 \<and>
   length (lit ''done'') \<le> 100000 \<and> truncate_step (lit ''done'') = lit ''done'' \<and>
   jobPath (lit ''a'') = Inr (lit ''job/a'') \<and>
   res_ok (text_200 (replicate 100001 0x61)) \<and>
   jenkins_get_console_output example_env (constant_server (text_200 (replicate 100001 0x61))) []
       (lit ''a'') (lit ''lastBuild'') None =
     (Inr (truncation_marker @ replicate 100000 0x61),
      [] @ [(console_request example_env (lit ''job/a'') (lit ''lastBuild''),
             Responded (text_200 (replicate 100001 0x61)))])"
proof -
  let ?t = "replicate 100001 (0x61 :: 16 word)"
  note w = truncate_step_trailing [of "?t" "lit ''a''" "lit ''job/a''"
      "constant_server (text_200 ?t)" "[]" example_env "lit ''lastBuild''" "text_200 ?t"]
  have l: "100000 < length ?t" by simp
  from w l have t: "truncate_step ?t = truncation_marker @ replicate 100000 0x61"
    by simp
  have s: "constant_server (text_200 ?t) []
      (console_request example_env (lit ''job/a'') (lit ''lastBuild'')) = Responded (text_200 ?t)"
    by (simp add: constant_server_def)
  from w job_a_path s text_200_ok [of "?t"]
  have "jenkins_get_console_output example_env (constant_server (text_200 ?t)) []
       (lit ''a'') (lit ''lastBuild'') None =
     (Inr (truncate_step ?t),
      [] @ [(console_request example_env (lit ''job/a'') (lit ''lastBuild''),
             Responded (text_200 ?t))])"
    by blast
  then have c: "jenkins_get_console_output example_env (constant_server (text_200 ?t)) []
       (lit ''a'') (lit ''lastBuild'') None =
     (Inr (truncation_marker @ replicate 100000 0x61),
      [] @ [(console_request example_env (lit ''job/a'') (lit ''lastBuild''),
             Responded (text_200 ?t))])"
    by (simp only: t)
  have d: "length (lit ''done'') \<le> 100000" by (simp add: lit_def)
  from truncate_step_trailing [of "lit ''done''"] d
  have e: "truncate_step (lit ''done'') = lit ''done''" by blast
  from l t d e job_a_path text_200_ok(1) [of "?t"] c show ?thesis by (intro conjI)
qed

end
